theory Spec2Isabelle
  imports Complex_Main "HOL-Library.Word" "HOL-Library.Log_Nat"
begin

section \<open>Text primitives of the host language\<close>

text \<open>
  Text is modelled as \<^typ>\<open>string\<close>: a list of 8-bit characters, each read as the code
  point of the same number. The functions below are the model of the Python string
  methods the importer calls (\<^verbatim>\<open>str.strip\<close>, \<^verbatim>\<open>str.upper\<close>, \<^verbatim>\<open>str.lower\<close>,
  \<^verbatim>\<open>str.startswith\<close>, \<^verbatim>\<open>str.find\<close>, \<^verbatim>\<open>int\<close>, \<^verbatim>\<open>float\<close>), on text whose code points
  are below 256. The whitespace set is the one of \<^verbatim>\<open>str.isspace\<close> there. The case
  mappings are those of \<^verbatim>\<open>str.lower\<close> and \<^verbatim>\<open>str.upper\<close> there: the ASCII letters and the
  Latin-1 letters \<open>0xC0\<close> to \<open>0xDE\<close> and \<open>0xE0\<close> to \<open>0xFE\<close> (without the signs \<open>0xD7\<close> and
  \<open>0xF7\<close>), and the sharp s \<open>0xDF\<close>, whose capital is \<^verbatim>\<open>SS\<close>. The capitals of the micro
  sign \<open>0xB5\<close> and of \<open>0xFF\<close> lie above 255; the two characters stand for them. The
  callers compare upper-case text with ASCII text only, where this makes no difference.
\<close>

definition is_space :: "char \<Rightarrow> bool" where
  "is_space c \<longleftrightarrow> c \<in> set [CHR 0x09, CHR 0x0A, CHR 0x0B, CHR 0x0C, CHR 0x0D,
                           CHR 0x1C, CHR 0x1D, CHR 0x1E, CHR 0x1F, CHR 0x20,
                           CHR 0x85, CHR 0xA0]"

definition strip :: "string \<Rightarrow> string" where
  "strip s = rev (dropWhile is_space (rev (dropWhile is_space s)))"

definition lower_letters :: string where
  "lower_letters = ''abcdefghijklmnopqrstuvwxyz'' @
     [CHR 0xE0, CHR 0xE1, CHR 0xE2, CHR 0xE3, CHR 0xE4, CHR 0xE5, CHR 0xE6, CHR 0xE7,
      CHR 0xE8, CHR 0xE9, CHR 0xEA, CHR 0xEB, CHR 0xEC, CHR 0xED, CHR 0xEE, CHR 0xEF,
      CHR 0xF0, CHR 0xF1, CHR 0xF2, CHR 0xF3, CHR 0xF4, CHR 0xF5, CHR 0xF6,
      CHR 0xF8, CHR 0xF9, CHR 0xFA, CHR 0xFB, CHR 0xFC, CHR 0xFD, CHR 0xFE]"

definition upper_letters :: string where
  "upper_letters = ''ABCDEFGHIJKLMNOPQRSTUVWXYZ'' @
     [CHR 0xC0, CHR 0xC1, CHR 0xC2, CHR 0xC3, CHR 0xC4, CHR 0xC5, CHR 0xC6, CHR 0xC7,
      CHR 0xC8, CHR 0xC9, CHR 0xCA, CHR 0xCB, CHR 0xCC, CHR 0xCD, CHR 0xCE, CHR 0xCF,
      CHR 0xD0, CHR 0xD1, CHR 0xD2, CHR 0xD3, CHR 0xD4, CHR 0xD5, CHR 0xD6,
      CHR 0xD8, CHR 0xD9, CHR 0xDA, CHR 0xDB, CHR 0xDC, CHR 0xDD, CHR 0xDE]"

definition upper_char :: "char \<Rightarrow> char" where
  "upper_char c =
     (case map_of (zip lower_letters upper_letters) c of Some u \<Rightarrow> u | None \<Rightarrow> c)"

definition lower_char :: "char \<Rightarrow> char" where
  "lower_char c =
     (case map_of (zip upper_letters lower_letters) c of Some l \<Rightarrow> l | None \<Rightarrow> c)"

definition upper :: "string \<Rightarrow> string" where
  "upper s = concat (map (\<lambda>c. if c = CHR 0xDF then ''SS'' else [upper_char c]) s)"

definition lower :: "string \<Rightarrow> string" where
  "lower s = map lower_char s"

definition startswith :: "string \<Rightarrow> string \<Rightarrow> bool" where
  "startswith s p \<longleftrightarrow> take (length p) s = p"

text \<open>\<^verbatim>\<open>s.find(p, from)\<close>: the least index at or after \<open>from\<close> where \<open>p\<close> occurs, or
  \<open>None\<close> for Python's \<open>-1\<close>.\<close>

fun find_from :: "string \<Rightarrow> string \<Rightarrow> nat \<Rightarrow> nat option" where
  "find_from [] p i = (if p = [] then Some i else None)"
| "find_from (c # cs) p i =
     (if startswith (c # cs) p then Some i else find_from cs p (Suc i))"

definition find_str :: "string \<Rightarrow> string \<Rightarrow> nat option" where
  "find_str s p = find_from s p 0"

subsection \<open>The builtin conversions \<^verbatim>\<open>int(str)\<close> and \<^verbatim>\<open>float(str)\<close>\<close>

definition is_digit :: "char \<Rightarrow> bool" where
  "is_digit c \<longleftrightarrow> c \<in> set ''0123456789''"

definition digit_val :: "char \<Rightarrow> int" where
  "digit_val c = int (of_char c) - 48"

definition digits_value :: "string \<Rightarrow> int" where
  "digits_value ds = foldl (\<lambda>acc d. 10 * acc + digit_val d) 0 ds"

text \<open>After a first digit: the rest of a digit part, \<^verbatim>\<open>(["_"] digit)*\<close>, taken greedily;
  the result is what follows it.\<close>

fun skip_digit_tail :: "string \<Rightarrow> string" where
  "skip_digit_tail [] = []"
| "skip_digit_tail (c # cs) =
     (if is_digit c then skip_digit_tail cs
      else if c = CHR ''_'' then
        (case cs of
           [] \<Rightarrow> c # cs
         | d # ds \<Rightarrow> if is_digit d then skip_digit_tail ds else c # cs)
      else c # cs)"

definition skip_digitpart :: "string \<Rightarrow> string option" where
  "skip_digitpart s =
     (case s of [] \<Rightarrow> None
      | c # cs \<Rightarrow> if is_digit c then Some (skip_digit_tail cs) else None)"

definition is_sign :: "char \<Rightarrow> bool" where
  "is_sign c \<longleftrightarrow> c = CHR ''+'' \<or> c = CHR ''-''"

definition drop_sign :: "string \<Rightarrow> string" where
  "drop_sign s = (case s of [] \<Rightarrow> [] | c # cs \<Rightarrow> if is_sign c then cs else s)"

text \<open>CPython refuses to convert a decimal string of more than this many digits.\<close>

definition int_max_str_digits :: nat where
  "int_max_str_digits = 4300"

text \<open>The whitespace that \<^verbatim>\<open>int\<close> and \<^verbatim>\<open>float\<close> drop around a number: the ASCII
  whitespace, and the two further whitespace characters below 256 that are not ASCII.
  The separators \<open>0x1C\<close> to \<open>0x1F\<close>, which \<^verbatim>\<open>str.strip\<close> removes, are not among them.\<close>

definition is_numeric_space :: "char \<Rightarrow> bool" where
  "is_numeric_space c \<longleftrightarrow> c \<in> set [CHR 0x09, CHR 0x0A, CHR 0x0B, CHR 0x0C, CHR 0x0D,
                                   CHR 0x20, CHR 0x85, CHR 0xA0]"

definition numeric_strip :: "string \<Rightarrow> string" where
  "numeric_strip s = rev (dropWhile is_numeric_space (rev (dropWhile is_numeric_space s)))"

text \<open>\<^verbatim>\<open>int(s)\<close>: surrounding whitespace is dropped, then an optional sign, then digits
  with single underscores between them. \<open>None\<close> is the \<^verbatim>\<open>ValueError\<close>.\<close>

definition py_int :: "string \<Rightarrow> int option" where
  "py_int s =
     (let t = numeric_strip s; body = drop_sign t; ds = filter is_digit body in
      if skip_digitpart body = Some [] \<and> length ds \<le> int_max_str_digits
      then Some ((if take 1 t = ''-'' then - 1 else 1) * digits_value ds)
      else None)"

definition float_exponent_ok :: "string \<Rightarrow> bool" where
  "float_exponent_ok r \<longleftrightarrow>
     (case r of [] \<Rightarrow> True
      | c # cs \<Rightarrow> (c = CHR ''e'' \<or> c = CHR ''E'') \<and> skip_digitpart (drop_sign cs) = Some [])"

text \<open>The grammar of \<^verbatim>\<open>float(s)\<close> without sign:
  \<^verbatim>\<open>([digitpart] "." digitpart | digitpart ["."]) [exponent]\<close>.\<close>

definition float_number_ok :: "string \<Rightarrow> bool" where
  "float_number_ok s \<longleftrightarrow>
     (case s of [] \<Rightarrow> False
      | c # cs \<Rightarrow>
          if c = CHR ''.'' then
            (case skip_digitpart cs of None \<Rightarrow> False | Some r \<Rightarrow> float_exponent_ok r)
          else
            (case skip_digitpart s of
               None \<Rightarrow> False
             | Some r \<Rightarrow>
                 (case r of
                    [] \<Rightarrow> True
                  | d # r' \<Rightarrow>
                      if d = CHR ''.'' then
                        (case skip_digitpart r' of
                           None \<Rightarrow> float_exponent_ok r'
                         | Some r'' \<Rightarrow> float_exponent_ok r'')
                      else float_exponent_ok r)))"

text \<open>\<^verbatim>\<open>float(s)\<close> drops surrounding whitespace and succeeds on a signed number,
  \<^verbatim>\<open>inf\<close>, \<^verbatim>\<open>infinity\<close> or \<^verbatim>\<open>nan\<close> (any letter case). The floating-point number itself
  is not modelled: a float is carried as the text it was read from.\<close>

definition py_float :: "string \<Rightarrow> string option" where
  "py_float s =
     (let body = drop_sign (numeric_strip s) in
      if lower body \<in> set [''inf'', ''infinity'', ''nan''] \<or> float_number_ok body
      then Some s else None)"

section \<open>The SQL dump parser\<close>

text \<open>A field of a row, as \<^verbatim>\<open>_parse_value\<close> returns it: \<^verbatim>\<open>None\<close>, an \<^verbatim>\<open>int\<close>, a
  \<^verbatim>\<open>float\<close> (carried as its source text) or a \<^verbatim>\<open>str\<close>.\<close>

datatype sql_value = SqlNull | SqlInt int | SqlFloat string | SqlText string

text \<open>\<^verbatim>\<open>ESCAPE_MAP\<close>, the MariaDB escape sequences.\<close>

definition ESCAPE_MAP :: "char \<rightharpoonup> char" where
  "ESCAPE_MAP = map_of
     [(CHR 0x27, CHR 0x27),
      (CHR 0x5C, CHR 0x5C),
      (CHR ''r'', CHR 0x0D),
      (CHR ''n'', CHR 0x0A),
      (CHR ''t'', CHR 0x09),
      (CHR ''0'', CHR 0x00),
      (CHR ''b'', CHR 0x08),
      (CHR ''Z'', CHR 0x1A)]"

text \<open>\<^verbatim>\<open>ESCAPE_MAP.get(char, char)\<close>\<close>

definition escape_get :: "char \<Rightarrow> char" where
  "escape_get c = (case ESCAPE_MAP c of Some d \<Rightarrow> d | None \<Rightarrow> c)"

definition parse_value :: "string \<Rightarrow> bool \<Rightarrow> sql_value" where
  "parse_value v was_quoted =
     (if upper v = ''NULL'' then SqlNull
      else if v = [] \<and> \<not> was_quoted then SqlNull
      else (case py_int v of
              Some n \<Rightarrow> SqlInt n
            | None \<Rightarrow>
                (case py_float v of
                   Some f \<Rightarrow> SqlFloat f
                 | None \<Rightarrow> SqlText v)))"

datatype parse_state = OUTSIDE | IN_STRING | ESCAPE

text \<open>The \<^verbatim>\<open>while i < len(text)\<close> loop of \<^verbatim>\<open>_parse_values_tuple\<close>. The first argument
  is \<^verbatim>\<open>text[i:]\<close>, \<open>i\<close> the index, \<open>n\<close> is \<^verbatim>\<open>len(text)\<close>; \<open>cur\<close>, \<open>wq\<close> and \<open>vals\<close> are
  \<^verbatim>\<open>current\<close>, \<^verbatim>\<open>was_quoted\<close> and \<^verbatim>\<open>values\<close>.\<close>

fun tuple_loop ::
  "string \<Rightarrow> nat \<Rightarrow> nat \<Rightarrow> parse_state \<Rightarrow> string \<Rightarrow> bool \<Rightarrow> sql_value list
     \<Rightarrow> sql_value list \<times> nat" where
  "tuple_loop [] i n st cur wq vals = (vals, n)"
| "tuple_loop (c # cs) i n st cur wq vals =
     (if st = ESCAPE then
        tuple_loop cs (i + 1) n IN_STRING (cur @ [escape_get c]) wq vals
      else if st = IN_STRING then
        (if c = CHR 0x5C then tuple_loop cs (i + 1) n ESCAPE cur wq vals
         else if c = CHR 0x27 then
           (case cs of
              [] \<Rightarrow> tuple_loop cs (i + 1) n OUTSIDE cur wq vals
            | d # ds \<Rightarrow>
                if d = CHR 0x27 then tuple_loop ds (i + 2) n IN_STRING (cur @ [CHR 0x27]) wq vals
                else tuple_loop cs (i + 1) n OUTSIDE cur wq vals)
         else tuple_loop cs (i + 1) n IN_STRING (cur @ [c]) wq vals)
      else if c = CHR 0x27 then tuple_loop cs (i + 1) n IN_STRING cur True vals
      else if c = CHR '','' then
        tuple_loop cs (i + 1) n st [] False (vals @ [parse_value (strip cur) wq])
      else if c = CHR '')'' then (vals @ [parse_value (strip cur) wq], i + 1)
      else tuple_loop cs (i + 1) n st (cur @ [c]) wq vals)"

definition parse_values_tuple :: "string \<Rightarrow> nat \<Rightarrow> sql_value list \<times> nat" where
  "parse_values_tuple text start =
     tuple_loop (drop (start + 1) text) (start + 1) (length text) OUTSIDE [] False []"

subsection \<open>Escaped string literals\<close>

text \<open>The content of a quoted SQL string, piece by piece: a plain character, a backslash
  escape, or a doubled quote. \<open>render\<close> is the text of the dump, \<open>literal\<close> the string
  the escapes denote (the MariaDB meaning of each sequence).\<close>

datatype piece = Plain char | Escaped char | Doubled

fun mysql_escape_denotation :: "char \<Rightarrow> char option" where
  "mysql_escape_denotation c =
     (if c = CHR 0x27 then Some (CHR 0x27)
      else if c = CHR 0x5C then Some (CHR 0x5C)
      else if c = CHR ''n'' then Some (CHR 0x0A)
      else if c = CHR ''r'' then Some (CHR 0x0D)
      else if c = CHR ''t'' then Some (CHR 0x09)
      else if c = CHR ''0'' then Some (CHR 0x00)
      else if c = CHR ''b'' then Some (CHR 0x08)
      else if c = CHR ''Z'' then Some (CHR 0x1A)
      else None)"

fun render_piece :: "piece \<Rightarrow> string" where
  "render_piece (Plain c) = [c]"
| "render_piece (Escaped c) = [CHR 0x5C, c]"
| "render_piece Doubled = [CHR 0x27, CHR 0x27]"

fun literal_piece :: "piece \<Rightarrow> string" where
  "literal_piece (Plain c) = [c]"
| "literal_piece (Escaped c) = (case mysql_escape_denotation c of Some d \<Rightarrow> [d] | None \<Rightarrow> [])"
| "literal_piece Doubled = [CHR 0x27]"

fun valid_piece :: "piece \<Rightarrow> bool" where
  "valid_piece (Plain c) \<longleftrightarrow> c \<noteq> CHR 0x27 \<and> c \<noteq> CHR 0x5C"
| "valid_piece (Escaped c) \<longleftrightarrow> mysql_escape_denotation c \<noteq> None"
| "valid_piece Doubled \<longleftrightarrow> True"

fun is_escape :: "piece \<Rightarrow> bool" where
  "is_escape (Plain c) = False"
| "is_escape _ = True"

definition render :: "piece list \<Rightarrow> string" where
  "render ps = concat (map render_piece ps)"

definition literal :: "piece list \<Rightarrow> string" where
  "literal ps = concat (map literal_piece ps)"

definition quoted_tuple :: "piece list \<Rightarrow> string" where
  "quoted_tuple ps = [CHR ''('', CHR 0x27] @ render ps @ [CHR 0x27, CHR '')'']"


text \<open>A field of a tuple as the dump writes it: an unquoted token (no quote, comma or
  closing parenthesis in it) or a quoted string. \<open>field_value\<close> is the value the loop of
  \<^verbatim>\<open>_parse_values_tuple\<close> appends at the comma after the field; \<open>render_fields\<close> writes
  fields, each followed by a comma.\<close>

datatype field = Unquoted string | Quoted "piece list"

definition plain_char :: "char \<Rightarrow> bool" where
  "plain_char c \<longleftrightarrow> c \<notin> set [CHR 0x27, CHR '','', CHR '')'']"

fun valid_field :: "field \<Rightarrow> bool" where
  "valid_field (Unquoted tok) = list_all plain_char tok"
| "valid_field (Quoted ps) = list_all valid_piece ps"

fun render_field :: "field \<Rightarrow> string" where
  "render_field (Unquoted tok) = tok"
| "render_field (Quoted ps) = [CHR 0x27] @ render ps @ [CHR 0x27]"

fun field_value :: "field \<Rightarrow> sql_value" where
  "field_value (Unquoted tok) = parse_value (strip tok) False"
| "field_value (Quoted ps) = parse_value (strip (literal ps)) True"

definition render_fields :: "field list \<Rightarrow> string" where
  "render_fields fs = concat (map (\<lambda>f. render_field f @ '','') fs)"

definition escape_target :: "char \<Rightarrow> bool" where
  "escape_target c \<longleftrightarrow> c \<in> set [CHR 0x27, CHR 0x5C, CHR 0x0A, CHR 0x0D, CHR 0x09, CHR 0x00, CHR 0x08, CHR 0x1A]"

definition numeric_char :: "char \<Rightarrow> bool" where
  "numeric_char c \<longleftrightarrow> is_digit c \<or> is_sign c \<or> c \<in> set ''_.eE''"


subsection \<open>Properties of the tuple parser\<close>

lemmas value_defs =
  parse_value_def strip_def is_space_def upper_def upper_char_def py_int_def py_float_def
  lower_letters_def upper_letters_def numeric_strip_def is_numeric_space_def
  drop_sign_def is_sign_def skip_digitpart_def is_digit_def digits_value_def digit_val_def
  int_max_str_digits_def lower_def lower_char_def float_number_ok_def float_exponent_ok_def

lemma escape_get_denotation:
  "mysql_escape_denotation c = Some d \<Longrightarrow> escape_get c = d"
  by (auto simp: escape_get_def ESCAPE_MAP_def split: if_splits)

lemma tuple_loop_piece:
  "valid_piece p \<Longrightarrow>
   tuple_loop (render_piece p @ rest) i n IN_STRING cur wq vals =
   tuple_loop rest (i + length (render_piece p)) n IN_STRING (cur @ literal_piece p) wq vals"
proof (cases p)
  case (Plain c)
  assume "valid_piece p"
  with Plain show ?thesis by simp
next
  case (Escaped c)
  assume "valid_piece p"
  with Escaped obtain d where d: "mysql_escape_denotation c = Some d" by auto
  have "escape_get c = d" using d by (rule escape_get_denotation)
  with Escaped d show ?thesis by (simp del: mysql_escape_denotation.simps)
next
  case Doubled
  then show ?thesis by simp
qed

lemma tuple_loop_pieces:
  "\<forall>p\<in>set ps. valid_piece p \<Longrightarrow>
   tuple_loop (render ps @ rest) i n IN_STRING cur wq vals =
   tuple_loop rest (i + length (render ps)) n IN_STRING (cur @ literal ps) wq vals"
proof (induction ps arbitrary: i cur)
  case Nil
  then show ?case by (simp add: render_def literal_def)
next
  case (Cons p ps)
  have "tuple_loop (render (p # ps) @ rest) i n IN_STRING cur wq vals =
        tuple_loop (render_piece p @ (render ps @ rest)) i n IN_STRING cur wq vals"
    by (simp add: render_def)
  also have "\<dots> = tuple_loop (render ps @ rest) (i + length (render_piece p)) n IN_STRING
                       (cur @ literal_piece p) wq vals"
    using Cons.prems by (simp add: tuple_loop_piece del: tuple_loop.simps)
  also have "\<dots> = tuple_loop rest (i + length (render_piece p) + length (render ps)) n IN_STRING
                       ((cur @ literal_piece p) @ literal ps) wq vals"
    using Cons.prems by (simp add: Cons.IH del: tuple_loop.simps)
  finally show ?case by (simp add: render_def literal_def add.assoc)
qed

lemma skip_digit_tail_chars:
  "set s \<subseteq> {c. numeric_char c} \<union> set (skip_digit_tail s)"
proof (induction s rule: skip_digit_tail.induct)
  case 1
  then show ?case by simp
next
  case (2 c cs)
  show ?case
  proof (cases "is_digit c")
    case True
    with 2 show ?thesis by (auto simp: numeric_char_def)
  next
    case nd: False
    show ?thesis
    proof (cases "c = CHR ''_''")
      case False
      with nd show ?thesis by auto
    next
      case us: True
      show ?thesis
      proof (cases cs)
        case Nil
        with nd us show ?thesis by simp
      next
        case (Cons d ds)
        show ?thesis
        proof (cases "is_digit d")
          case True
          with nd us Cons 2(2) [OF nd us Cons True] show ?thesis
            by (auto simp: numeric_char_def)
        next
          case False
          with nd us Cons show ?thesis by auto
        qed
      qed
    qed
  qed
qed

lemma skip_digitpart_chars:
  "skip_digitpart s = Some r \<Longrightarrow> set s \<subseteq> {c. numeric_char c} \<union> set r"
proof (cases s)
  case Nil
  then show ?thesis by simp
next
  case (Cons c cs)
  assume "skip_digitpart s = Some r"
  with Cons have "is_digit c" "r = skip_digit_tail cs"
    by (auto simp: skip_digitpart_def split: if_splits)
  with Cons skip_digit_tail_chars [of cs] show ?thesis
    by (auto simp: numeric_char_def)
qed

lemma drop_sign_chars:
  "set (drop_sign s) \<subseteq> {c. numeric_char c} \<Longrightarrow> set s \<subseteq> {c. numeric_char c}"
  by (cases s) (auto simp: drop_sign_def numeric_char_def split: if_splits)

lemma float_exponent_chars:
  "float_exponent_ok r \<Longrightarrow> set r \<subseteq> {c. numeric_char c}"
proof (cases r)
  case Nil
  then show ?thesis by simp
next
  case (Cons c cs)
  assume "float_exponent_ok r"
  with Cons have c: "c = CHR ''e'' \<or> c = CHR ''E''"
    and d: "skip_digitpart (drop_sign cs) = Some []"
    by (simp_all add: float_exponent_ok_def)
  from d have "set (drop_sign cs) \<subseteq> {c. numeric_char c}"
    using skip_digitpart_chars [of "drop_sign cs" "[]"] by simp
  then have "set cs \<subseteq> {c. numeric_char c}" by (rule drop_sign_chars)
  moreover have "numeric_char c" using c by (auto simp: numeric_char_def)
  ultimately show ?thesis using Cons by simp
qed

lemma float_number_chars:
  assumes "float_number_ok s"
  shows "set s \<subseteq> {c. numeric_char c}"
proof (cases s)
  case Nil
  with assms show ?thesis by (simp add: float_number_ok_def)
next
  case (Cons c cs)
  show ?thesis
  proof (cases "c = CHR ''.''")
    case True
    with assms Cons obtain r where r: "skip_digitpart cs = Some r" "float_exponent_ok r"
      by (auto simp: float_number_ok_def split: option.splits)
    from r have "set cs \<subseteq> {c. numeric_char c}"
      by (blast dest: skip_digitpart_chars float_exponent_chars)
    with True Cons show ?thesis by (auto simp: numeric_char_def)
  next
    case False
    with assms Cons obtain r where r: "skip_digitpart s = Some r"
      and rest: "r = [] \<or> (\<exists>r'. r = CHR ''.'' # r' \<and>
            (case skip_digitpart r' of None \<Rightarrow> float_exponent_ok r'
             | Some r'' \<Rightarrow> float_exponent_ok r'')) \<or> float_exponent_ok r"
      by (auto simp: float_number_ok_def split: option.splits list.splits if_splits)
    have "set r \<subseteq> {c. numeric_char c}"
      using rest
    proof (elim disjE exE conjE)
      fix r' assume r': "r = CHR ''.'' # r'"
        and c: "case skip_digitpart r' of None \<Rightarrow> float_exponent_ok r'
                | Some r'' \<Rightarrow> float_exponent_ok r''"
      have "set r' \<subseteq> {c. numeric_char c}"
      proof (cases "skip_digitpart r'")
        case None
        with c show ?thesis by (simp add: float_exponent_chars)
      next
        case (Some r'')
        with c have "set r'' \<subseteq> {c. numeric_char c}" by (simp add: float_exponent_chars)
        with Some show ?thesis by (blast dest: skip_digitpart_chars)
      qed
      with r' show ?thesis by (auto simp: numeric_char_def)
    qed (auto dest: float_exponent_chars)
    with r show ?thesis by (blast dest: skip_digitpart_chars)
  qed
qed

lemma escape_target_cases:
  assumes "escape_target c"
  obtains "c = CHR 0x27" | "c = CHR 0x5C" | "c = CHR 0x0A" | "c = CHR 0x0D"
    | "c = CHR 0x09" | "c = CHR 0x00" | "c = CHR 0x08" | "c = CHR 0x1A"
  using assms unfolding escape_target_def by auto

lemma escape_target_not_numeric: "escape_target c \<Longrightarrow> \<not> numeric_char c"
  by (erule escape_target_cases) (simp_all add: numeric_char_def is_digit_def is_sign_def)

lemma escape_target_upper: "escape_target c \<Longrightarrow> upper_char c = c \<and> c \<noteq> CHR 0xDF"
  by (erule escape_target_cases)
     (simp_all add: upper_char_def lower_letters_def upper_letters_def)

lemma escape_target_lower: "escape_target c \<Longrightarrow> lower_char c = c"
  by (erule escape_target_cases)
     (simp_all add: lower_char_def lower_letters_def upper_letters_def)

lemma escape_target_not_letter: "escape_target c \<Longrightarrow> c \<notin> set ''infinityanNULL''"
  by (erule escape_target_cases) simp_all

lemma strip_no_edge_space:
  assumes "v \<noteq> [] \<longrightarrow> \<not> is_space (hd v) \<and> \<not> is_space (last v)"
  shows "strip v = v"
proof (cases v)
  case Nil
  then show ?thesis by (simp add: strip_def)
next
  case (Cons a w)
  with assms have h: "\<not> is_space a" and l: "\<not> is_space (last v)" by auto
  from h Cons have "dropWhile is_space v = v" by simp
  moreover from l have "dropWhile is_space (rev v) = rev v"
    by (simp add: dropWhile_eq_self_iff hd_rev)
  ultimately show ?thesis by (simp add: strip_def)
qed

lemma numeric_space_is_space: "is_numeric_space c \<Longrightarrow> is_space c"
  by (auto simp: is_numeric_space_def is_space_def)

lemma numeric_strip_no_edge_space:
  assumes "v \<noteq> [] \<longrightarrow> \<not> is_numeric_space (hd v) \<and> \<not> is_numeric_space (last v)"
  shows "numeric_strip v = v"
proof (cases v)
  case Nil
  then show ?thesis by (simp add: numeric_strip_def)
next
  case (Cons a w)
  with assms have h: "\<not> is_numeric_space a" and l: "\<not> is_numeric_space (last v)" by auto
  from h Cons have "dropWhile is_numeric_space v = v" by simp
  moreover from l have "dropWhile is_numeric_space (rev v) = rev v"
    by (simp add: dropWhile_eq_self_iff hd_rev)
  ultimately show ?thesis by (simp add: numeric_strip_def)
qed

lemma escape_target_text:
  assumes c: "c \<in> set v" "escape_target c"
    and edge: "\<not> is_space (hd v) \<and> \<not> is_space (last v)"
  shows "parse_value v q = SqlText v"
proof -
  have "v \<noteq> [] \<longrightarrow> \<not> is_numeric_space (hd v) \<and> \<not> is_numeric_space (last v)"
    using edge numeric_space_is_space by blast
  then have stripped: "numeric_strip v = v" by (rule numeric_strip_no_edge_space)
  have nn: "\<not> set v \<subseteq> {c. numeric_char c}"
    using c escape_target_not_numeric by auto
  have nd: "\<not> set (drop_sign v) \<subseteq> {c. numeric_char c}"
    using nn drop_sign_chars by blast
  have ds1: "skip_digitpart (drop_sign v) \<noteq> Some []"
    using nd skip_digitpart_chars [of "drop_sign v" "[]"] by auto
  have ds2: "\<not> float_number_ok (drop_sign v)"
    using nd float_number_chars [of "drop_sign v"] by auto
  have "\<not> is_sign c" using c(2) by (erule_tac escape_target_cases) (simp_all add: is_sign_def)
  then have cd: "c \<in> set (drop_sign v)"
    using c(1) by (cases v) (auto simp: drop_sign_def)
  then have "lower_char c \<in> set (lower (drop_sign v))" by (simp add: lower_def)
  then have cl: "c \<in> set (lower (drop_sign v))" using c(2) by (simp add: escape_target_lower)
  have lw: "lower (drop_sign v) \<notin> set [''inf'', ''infinity'', ''nan'']"
  proof
    assume "lower (drop_sign v) \<in> set [''inf'', ''infinity'', ''nan'']"
    then have "set (lower (drop_sign v)) \<subseteq> set ''infinityanNULL''" by auto
    with cl escape_target_not_letter [OF c(2)] show False by blast
  qed
  have "c \<noteq> CHR 0xDF" and "upper_char c = c"
    using escape_target_upper [OF c(2)] by simp_all
  then have "c \<in> set (if c = CHR 0xDF then ''SS'' else [upper_char c])" by simp
  with c(1) have "c \<in> (\<Union>x\<in>set v. set (if x = CHR 0xDF then ''SS'' else [upper_char x]))"
    by (rule UN_I)
  then have cu: "c \<in> set (upper v)"
    by (simp only: upper_def set_concat set_map image_image)
  have up: "upper v \<noteq> ''NULL''"
  proof
    assume "upper v = ''NULL''"
    then have "set (upper v) \<subseteq> set ''infinityanNULL''" by simp
    with cu escape_target_not_letter [OF c(2)] show False by blast
  qed
  have "v \<noteq> []" using c by auto
  with ds1 ds2 lw up stripped show ?thesis
    by (simp add: parse_value_def py_int_def py_float_def Let_def)
qed

lemma tuple_loop_plain:
  "list_all plain_char tok \<Longrightarrow>
   tuple_loop (tok @ rest) i n OUTSIDE cur wq vals =
   tuple_loop rest (i + length tok) n OUTSIDE (cur @ tok) wq vals"
proof (induction tok arbitrary: i cur)
  case Nil
  then show ?case by simp
next
  case (Cons c tok)
  from Cons.prems have "plain_char c" and rest: "list_all plain_char tok" by simp_all
  then have c: "c \<noteq> CHR 0x27" "c \<noteq> CHR '',''" "c \<noteq> CHR '')''"
    by (simp_all add: plain_char_def)
  have "tuple_loop ((c # tok) @ rest) i n OUTSIDE cur wq vals =
        tuple_loop (tok @ rest) (i + 1) n OUTSIDE (cur @ [c]) wq vals"
    using c by simp
  also have "\<dots> = tuple_loop rest (i + 1 + length tok) n OUTSIDE ((cur @ [c]) @ tok) wq vals"
    using rest by (rule Cons.IH)
  finally show ?case by simp
qed

lemma tuple_loop_quoted:
  assumes "list_all valid_piece ps" "d = CHR '','' \<or> d = CHR '')''"
  shows "tuple_loop ([CHR 0x27] @ render ps @ [CHR 0x27] @ d # rest) i n OUTSIDE [] False vals =
         tuple_loop (d # rest) (i + length (render ps) + 2) n OUTSIDE (literal ps) True vals"
proof -
  have valid: "\<forall>p\<in>set ps. valid_piece p" using assms(1) by (simp add: list_all_iff)
  have "tuple_loop ([CHR 0x27] @ render ps @ [CHR 0x27] @ d # rest) i n OUTSIDE [] False vals =
        tuple_loop (render ps @ ([CHR 0x27] @ d # rest)) (i + 1) n IN_STRING [] True vals"
    by simp
  also have "\<dots> = tuple_loop ([CHR 0x27] @ d # rest) (i + 1 + length (render ps)) n IN_STRING
                       ([] @ literal ps) True vals"
    using valid by (rule tuple_loop_pieces)
  also have "\<dots> = tuple_loop (d # rest) (i + length (render ps) + 2) n OUTSIDE (literal ps) True vals"
  proof -
    have "i + 1 + length (render ps) + 1 = i + length (render ps) + 2" by simp
    moreover have "d \<noteq> CHR 0x27" using assms(2) by auto
    ultimately show ?thesis by simp
  qed
  finally show ?thesis .
qed

lemma tuple_loop_field:
  assumes "valid_field f"
  shows "tuple_loop (render_field f @ '','' @ rest) i n OUTSIDE [] False vals =
         tuple_loop rest (i + length (render_field f) + 1) n OUTSIDE [] False
           (vals @ [field_value f])"
proof (cases f)
  case (Unquoted tok)
  with assms have "list_all plain_char tok" by simp
  from tuple_loop_plain [OF this, of "'','' @ rest" i n "[]" False vals] Unquoted
  show ?thesis by simp
next
  case (Quoted ps)
  with assms have "list_all valid_piece ps" by simp
  from tuple_loop_quoted [OF this, of "CHR '',''" rest i n vals] Quoted
  show ?thesis by simp
qed

lemma tuple_loop_fields:
  "list_all valid_field fs \<Longrightarrow>
   tuple_loop (render_fields fs @ rest) i n OUTSIDE [] False vals =
   tuple_loop rest (i + length (render_fields fs)) n OUTSIDE [] False
     (vals @ map field_value fs)"
proof (induction fs arbitrary: i vals)
  case Nil
  then show ?case by (simp add: render_fields_def)
next
  case (Cons f fs)
  from Cons.prems have f: "valid_field f" and fs: "list_all valid_field fs" by simp_all
  have "tuple_loop (render_fields (f # fs) @ rest) i n OUTSIDE [] False vals =
        tuple_loop (render_field f @ '','' @ (render_fields fs @ rest)) i n OUTSIDE [] False vals"
    by (simp add: render_fields_def)
  also have "\<dots> = tuple_loop (render_fields fs @ rest) (i + length (render_field f) + 1) n
                       OUTSIDE [] False (vals @ [field_value f])"
    using f by (rule tuple_loop_field)
  also have "\<dots> = tuple_loop rest (i + length (render_field f) + 1 + length (render_fields fs)) n
                       OUTSIDE [] False ((vals @ [field_value f]) @ map field_value fs)"
    using fs by (rule Cons.IH)
  finally show ?case by (simp add: render_fields_def add.assoc)
qed

text \<open>The loop only ever appends to the values it has.\<close>

lemma tuple_loop_extends:
  "\<exists>more. fst (tuple_loop s i n st cur wq vals) = vals @ more"
proof (induction s arbitrary: i st cur wq vals rule: length_induct)
  case (1 s)
  show ?case
  proof (cases s)
    case Nil
    then show ?thesis by simp
  next
    case (Cons c cs)
    have shorter: "\<And>i st cur wq vals.
        \<exists>more. fst (tuple_loop cs i n st cur wq vals) = vals @ more"
      using 1 Cons by simp
    have shorter2: "\<And>d ds i st cur wq vals.
        cs = d # ds \<Longrightarrow> \<exists>more. fst (tuple_loop ds i n st cur wq vals) = vals @ more"
      using 1 Cons by simp
    have "\<exists>more. fst (tuple_loop cs (i + 1) n st [] False
                         (vals @ [parse_value (strip cur) wq])) =
                  (vals @ [parse_value (strip cur) wq]) @ more"
      by (rule shorter)
    then have comma: "\<exists>more. fst (tuple_loop cs (i + 1) n st [] False
                         (vals @ [parse_value (strip cur) wq])) = vals @ more"
      by auto
    have step: "tuple_loop s i n st cur wq vals =
     (if st = ESCAPE then
        tuple_loop cs (i + 1) n IN_STRING (cur @ [escape_get c]) wq vals
      else if st = IN_STRING then
        (if c = CHR 0x5C then tuple_loop cs (i + 1) n ESCAPE cur wq vals
         else if c = CHR 0x27 then
           (case cs of
              [] \<Rightarrow> tuple_loop cs (i + 1) n OUTSIDE cur wq vals
            | d # ds \<Rightarrow>
                if d = CHR 0x27 then tuple_loop ds (i + 2) n IN_STRING (cur @ [CHR 0x27]) wq vals
                else tuple_loop cs (i + 1) n OUTSIDE cur wq vals)
         else tuple_loop cs (i + 1) n IN_STRING (cur @ [c]) wq vals)
      else if c = CHR 0x27 then tuple_loop cs (i + 1) n IN_STRING cur True vals
      else if c = CHR '','' then
        tuple_loop cs (i + 1) n st [] False (vals @ [parse_value (strip cur) wq])
      else if c = CHR '')'' then (vals @ [parse_value (strip cur) wq], i + 1)
      else tuple_loop cs (i + 1) n st (cur @ [c]) wq vals)"
      unfolding Cons by (rule tuple_loop.simps)
    show ?thesis
      unfolding step using shorter shorter2 comma
      by (auto simp del: tuple_loop.simps split: list.split)
  qed
qed

lemma escaped_literal_is_text:
  assumes valid: "\<forall>p\<in>set ps. valid_piece p"
    and esc: "\<exists>p\<in>set ps. is_escape p"
    and edge: "\<not> is_space (hd (literal ps)) \<and> \<not> is_space (last (literal ps))"
  shows "parse_value (strip (literal ps)) True = SqlText (literal ps)"
proof -
  from esc obtain p where p: "p \<in> set ps" "is_escape p" by blast
  with valid have vp: "valid_piece p" by blast
  have "\<exists>c\<in>set (literal_piece p). escape_target c"
  proof (cases p)
    case (Plain c)
    with p show ?thesis by simp
  next
    case (Escaped c)
    with vp show ?thesis
      by (auto simp: escape_target_def split: if_splits)
  next
    case Doubled
    then show ?thesis by (simp add: escape_target_def)
  qed
  then obtain c where c: "c \<in> set (literal ps)" "escape_target c"
    using p(1) by (auto simp: literal_def)
  have s: "strip (literal ps) = literal ps"
    using edge by (simp add: strip_no_edge_space)
  have "parse_value (literal ps) True = SqlText (literal ps)"
    using c edge by (rule escape_target_text)
  with s show ?thesis by simp
qed

text \<open>
  Claim C1, as amended. Take any tuple, at any offset of the text: fields before (unquoted
  tokens or quoted strings, any number of them), then a quoted string value made of plain
  characters, escape sequences of the fixed table and doubled quotes, which holds at least
  one escape and whose unescaped literal neither starts nor ends with whitespace, then the
  closing parenthesis, or a comma and more fields. \<^verbatim>\<open>_parse_values_tuple\<close> returns, after
  the values of the fields before, exactly that literal, as text.
\<close>

theorem escape_decoding_round_trip:
  assumes fields: "list_all valid_field fs"
    and valid: "\<forall>p\<in>set ps. valid_piece p"
    and esc: "\<exists>p\<in>set ps. is_escape p"
    and edge: "\<not> is_space (hd (literal ps)) \<and> \<not> is_space (last (literal ps))"
  shows "parse_values_tuple
           (before @ ''('' @ render_fields fs @ render_field (Quoted ps) @ '')'' @ rest)
           (length before) =
           (map field_value fs @ [SqlText (literal ps)],
            length before + length (render_fields fs) + length (render ps) + 4)
         \<and> (\<exists>more end_pos.
               parse_values_tuple
                 (before @ ''('' @ render_fields fs @ render_field (Quoted ps) @ '','' @ rest)
                 (length before) =
               (map field_value fs @ SqlText (literal ps) # more, end_pos))"
proof
  have pieces: "list_all valid_piece ps" using valid by (simp add: list_all_iff)
  have lit: "parse_value (strip (literal ps)) True = SqlText (literal ps)"
    using valid esc edge by (rule escaped_literal_is_text)
  let ?start = "length before + 1"
  let ?at = "?start + length (render_fields fs)"
  show "parse_values_tuple
           (before @ ''('' @ render_fields fs @ render_field (Quoted ps) @ '')'' @ rest)
           (length before) =
           (map field_value fs @ [SqlText (literal ps)],
            length before + length (render_fields fs) + length (render ps) + 4)"
  proof -
    let ?n = "length (before @ ''('' @ render_fields fs @ render_field (Quoted ps) @ '')'' @ rest)"
    have "parse_values_tuple
            (before @ ''('' @ render_fields fs @ render_field (Quoted ps) @ '')'' @ rest)
            (length before) =
          tuple_loop (render_fields fs @ ([CHR 0x27] @ render ps @ [CHR 0x27] @ CHR '')'' # rest))
            ?start ?n OUTSIDE [] False []"
      by (simp add: parse_values_tuple_def)
    also have "\<dots> = tuple_loop ([CHR 0x27] @ render ps @ [CHR 0x27] @ CHR '')'' # rest)
                         ?at ?n OUTSIDE [] False ([] @ map field_value fs)"
      using fields by (rule tuple_loop_fields)
    also have "\<dots> = tuple_loop (CHR '')'' # rest) (?at + length (render ps) + 2) ?n OUTSIDE
                         (literal ps) True ([] @ map field_value fs)"
      using pieces by (rule tuple_loop_quoted) simp
    also have "\<dots> = (map field_value fs @ [SqlText (literal ps)],
                        length before + length (render_fields fs) + length (render ps) + 4)"
      using lit by simp
    finally show ?thesis .
  qed
  show "\<exists>more end_pos.
               parse_values_tuple
                 (before @ ''('' @ render_fields fs @ render_field (Quoted ps) @ '','' @ rest)
                 (length before) =
               (map field_value fs @ SqlText (literal ps) # more, end_pos)"
  proof -
    let ?n = "length (before @ ''('' @ render_fields fs @ render_field (Quoted ps) @ '','' @ rest)"
    let ?vals = "map field_value fs @ [SqlText (literal ps)]"
    have "parse_values_tuple
            (before @ ''('' @ render_fields fs @ render_field (Quoted ps) @ '','' @ rest)
            (length before) =
          tuple_loop (render_fields fs @ ([CHR 0x27] @ render ps @ [CHR 0x27] @ CHR '','' # rest))
            ?start ?n OUTSIDE [] False []"
      by (simp add: parse_values_tuple_def)
    also have "\<dots> = tuple_loop ([CHR 0x27] @ render ps @ [CHR 0x27] @ CHR '','' # rest)
                         ?at ?n OUTSIDE [] False ([] @ map field_value fs)"
      using fields by (rule tuple_loop_fields)
    also have "\<dots> = tuple_loop (CHR '','' # rest) (?at + length (render ps) + 2) ?n OUTSIDE
                         (literal ps) True ([] @ map field_value fs)"
      using pieces by (rule tuple_loop_quoted) simp
    also have "\<dots> = tuple_loop rest (?at + length (render ps) + 2 + 1) ?n OUTSIDE [] False ?vals"
      using lit by simp
    finally have run: "parse_values_tuple
            (before @ ''('' @ render_fields fs @ render_field (Quoted ps) @ '','' @ rest)
            (length before) =
          tuple_loop rest (?at + length (render ps) + 2 + 1) ?n OUTSIDE [] False ?vals" .
    obtain more where
      "fst (tuple_loop rest (?at + length (render ps) + 2 + 1) ?n OUTSIDE [] False ?vals) =
         ?vals @ more"
      using tuple_loop_extends by blast
    with run have "parse_values_tuple
            (before @ ''('' @ render_fields fs @ render_field (Quoted ps) @ '','' @ rest)
            (length before) =
          (map field_value fs @ SqlText (literal ps) # more,
           snd (tuple_loop rest (?at + length (render ps) + 2 + 1) ?n OUTSIDE [] False ?vals))"
      by (simp add: prod_eq_iff)
    then show ?thesis by blast
  qed
qed

text \<open>The witness is the tuple \<^verbatim>\<open>(1,'don\'t')\<close> of the repository's tests, and the same
  two fields followed by a third.\<close>

theorem escape_decoding_round_trip_witness:
  "parse_values_tuple (''(1,'don'' @ [CHR 0x5C] @ '''t')'') 0
     = ([SqlInt 1, SqlText ''don't''], 12)
   \<and> (\<exists>more end_pos.
         parse_values_tuple (''(1,'don'' @ [CHR 0x5C] @ '''t',NULL)'') 0
           = (SqlInt 1 # SqlText ''don't'' # more, end_pos))"
proof -
  let ?ps = "[Plain (CHR ''d''), Plain (CHR ''o''), Plain (CHR ''n''),
              Escaped (CHR 0x27), Plain (CHR ''t'')]"
  have fields: "list_all valid_field [Unquoted ''1'']" by (simp add: plain_char_def)
  have valid: "\<forall>p\<in>set ?ps. valid_piece p" by simp
  have esc: "\<exists>p\<in>set ?ps. is_escape p" by simp
  have edge: "\<not> is_space (hd (literal ?ps)) \<and> \<not> is_space (last (literal ?ps))"
    by (simp add: literal_def is_space_def)
  have one: "parse_value (strip ''1'') False = SqlInt 1" by (simp add: value_defs)
  from escape_decoding_round_trip [OF fields valid esc edge, of "[]" "[]"]
  have a: "parse_values_tuple (''(1,'don'' @ [CHR 0x5C] @ '''t')'') 0
             = ([SqlInt 1, SqlText ''don't''], 12)"
    by (simp add: one render_fields_def render_def literal_def)
  from escape_decoding_round_trip [OF fields valid esc edge, of "[]" "''NULL)''"]
  have b: "\<exists>more end_pos.
         parse_values_tuple (''(1,'don'' @ [CHR 0x5C] @ '''t',NULL)'') 0
           = (SqlInt 1 # SqlText ''don't'' # more, end_pos)"
    by (simp add: one render_fields_def render_def literal_def)
  from a b show ?thesis by blast
qed

text \<open>
  Claim C1 as stated fails: the value \<^verbatim>\<open>'a\n'\<close> denotes the letter followed by a
  newline, and the parser returns the letter alone, because every token is stripped of
  whitespace before conversion.
\<close>

theorem escape_round_trip_counterexample:
  "valid_piece (Plain (CHR ''a'')) \<and> valid_piece (Escaped (CHR ''n''))
   \<and> quoted_tuple [Plain (CHR ''a''), Escaped (CHR ''n'')]
       = [CHR ''('', CHR 0x27, CHR ''a'', CHR 0x5C, CHR ''n'', CHR 0x27, CHR '')'']
   \<and> literal [Plain (CHR ''a''), Escaped (CHR ''n'')] = [CHR ''a'', CHR 0x0A]
   \<and> parse_values_tuple (quoted_tuple [Plain (CHR ''a''), Escaped (CHR ''n'')]) 0
       = ([SqlText ''a''], 7)"
  by (simp add: quoted_tuple_def render_def literal_def parse_values_tuple_def escape_get_def
      ESCAPE_MAP_def value_defs)

text \<open>
  Claim C2. The two example tuples parse as the claim says, and so do the unquoted keyword
  and the two empty tokens. The general rule fails on the quoted string \<^verbatim>\<open>'NULL'\<close>: it
  is a token other than the unquoted keyword and the empty ones, it is neither an integer
  nor a float, so the claim keeps it as the text \<^verbatim>\<open>NULL\<close>; \<^verbatim>\<open>_parse_value\<close> returns
  null, because its first test does not look at the quoting flag, though the comment
  above that test reads \<^verbatim>\<open>NULL keyword (unquoted) becomes None\<close>.
\<close>

theorem quoted_null_keyword_becomes_null:
  "parse_values_tuple ''(1,'NULL')'' 0 = ([SqlInt 1, SqlNull], 10)
   \<and> parse_value ''NULL'' True = SqlNull
   \<and> py_int ''NULL'' = None \<and> py_float ''NULL'' = None
   \<and> parse_values_tuple ''(1,'hello',NULL)'' 0 = ([SqlInt 1, SqlText ''hello'', SqlNull], 16)
   \<and> parse_values_tuple (''(NULL,'' @ [CHR 0x27, CHR 0x27] @ '',1)'') 0
       = ([SqlNull, SqlText [], SqlInt 1], 11)
   \<and> parse_value ''null'' False = SqlNull
   \<and> parse_value [] False = SqlNull
   \<and> parse_value [] True = SqlText []"
  by (simp add: parse_values_tuple_def value_defs)

text \<open>
  Claim C10. For a non-empty token the result of \<^verbatim>\<open>_parse_value\<close> does not depend on the
  quoting flag; the flag only separates the quoted empty token (the empty string) from
  the unquoted one (null). So \<^verbatim>\<open>'NULL'\<close> in quotes is null and \<^verbatim>\<open>'123'\<close> in quotes is
  the integer 123.
\<close>

theorem quoting_only_matters_when_empty:
  "(v \<noteq> [] \<longrightarrow> parse_value v True = parse_value v False)
   \<and> parse_value [] True = SqlText [] \<and> parse_value [] False = SqlNull
   \<and> parse_values_tuple ''('NULL')'' 0 = ([SqlNull], 8)
   \<and> parse_values_tuple ''('123')'' 0 = ([SqlInt 123], 7)"
proof (intro conjI impI)
  show "parse_value [] False = SqlNull" by (simp add: parse_value_def)
  show "parse_value [] True = SqlText []" by (simp add: value_defs)
  show "parse_values_tuple ''('NULL')'' 0 = ([SqlNull], 8)"
    by (simp add: parse_values_tuple_def value_defs)
  show "parse_values_tuple ''('123')'' 0 = ([SqlInt 123], 7)"
    by (simp add: parse_values_tuple_def value_defs)
qed (simp add: parse_value_def)

theorem quoting_only_matters_when_empty_witness:
  "parse_value ''123'' True = parse_value ''123'' False
   \<and> parse_value ''123'' False = SqlInt 123"
proof -
  have "''123'' \<noteq> []" by simp
  then have "parse_value ''123'' True = parse_value ''123'' False"
    using quoting_only_matters_when_empty [of "''123''"] by blast
  moreover have "parse_value ''123'' False = SqlInt 123" by (simp add: value_defs)
  ultimately show ?thesis by simp
qed

section \<open>The frame-compressed line reader\<close>

text \<open>
  \<^verbatim>\<open>read_lines_zst\<close> reads a zstandard stream in chunks and yields its text lines. The
  decompressor is a library outside the repository: the model starts from the
  decompressed content, the bytes that \<^verbatim>\<open>reader.read\<close> serves in order. Decoded text is
  a list of code points. The second component of each yielded pair, the offset of the
  compressed file, is not modelled.
\<close>

type_synonym byte = "8 word"
type_synonym pytext = "nat list"

text \<open>\<^verbatim>\<open>bytes.decode()\<close>: strict UTF-8. \<open>utf8_first\<close> decodes the first code point
  and gives the number of continuation bytes it took; \<open>None\<close> is the
  \<^verbatim>\<open>UnicodeDecodeError\<close>.\<close>

definition is_cont :: "byte \<Rightarrow> bool" where
  "is_cont b \<longleftrightarrow> 0x80 \<le> b \<and> b \<le> 0xBF"

definition cont_bits :: "byte \<Rightarrow> nat" where
  "cont_bits b = unat b - 0x80"

fun utf8_first :: "byte list \<Rightarrow> (nat \<times> nat) option" where
  "utf8_first [] = None"
| "utf8_first (b0 # bs) =
     (if b0 < 0x80 then Some (unat b0, 0)
      else if 0xC2 \<le> b0 \<and> b0 \<le> 0xDF then
        (case bs of
           b1 # _ \<Rightarrow>
             if is_cont b1 then Some ((unat b0 - 0xC0) * 64 + cont_bits b1, 1) else None
         | _ \<Rightarrow> None)
      else if 0xE0 \<le> b0 \<and> b0 \<le> 0xEF then
        (case bs of
           b1 # b2 # _ \<Rightarrow>
             if is_cont b1 \<and> is_cont b2
                \<and> (if b0 = 0xE0 then 0xA0 \<le> b1 else if b0 = 0xED then b1 \<le> 0x9F else True)
             then Some (((unat b0 - 0xE0) * 64 + cont_bits b1) * 64 + cont_bits b2, 2)
             else None
         | _ \<Rightarrow> None)
      else if 0xF0 \<le> b0 \<and> b0 \<le> 0xF4 then
        (case bs of
           b1 # b2 # b3 # _ \<Rightarrow>
             if is_cont b1 \<and> is_cont b2 \<and> is_cont b3
                \<and> (if b0 = 0xF0 then 0x90 \<le> b1 else if b0 = 0xF4 then b1 \<le> 0x8F else True)
             then Some ((((unat b0 - 0xF0) * 64 + cont_bits b1) * 64 + cont_bits b2) * 64
                        + cont_bits b3, 3)
             else None
         | _ \<Rightarrow> None)
      else None)"

function utf8_decode :: "byte list \<Rightarrow> pytext option" where
  "utf8_decode bs =
     (if bs = [] then Some []
      else (case utf8_first bs of
              None \<Rightarrow> None
            | Some (cp, k) \<Rightarrow> map_option ((#) cp) (utf8_decode (drop (Suc k) bs))))"
  by pat_completeness auto
termination
  by (relation "measure length") auto


text \<open>\<^verbatim>\<open>read_and_decode\<close>: \<open>reader\<close> is what is left of the content, the result holds
  the decoded text and the reader after the reads. The interpreter's recursion limit is
  not modelled, except for a call that would recurse without progress (chunk size 0),
  which ends in \<^verbatim>\<open>RecursionError\<close>; with the arguments of \<^verbatim>\<open>read_lines_zst\<close> the depth
  is at most 9.\<close>

datatype read_error = UnicodeError nat | RecursionError

definition join_previous :: "byte list option \<Rightarrow> byte list \<Rightarrow> byte list" where
  "join_previous previous_chunk chunk =
     (case previous_chunk of None \<Rightarrow> chunk | Some p \<Rightarrow> p @ chunk)"

function read_and_decode ::
  "byte list \<Rightarrow> nat \<Rightarrow> nat \<Rightarrow> byte list option \<Rightarrow> nat \<Rightarrow> read_error + (pytext \<times> byte list)" where
  "read_and_decode reader chunk_size max_window_size previous_chunk bytes_read =
     (let chunk = join_previous previous_chunk (take chunk_size reader);
          reader' = drop chunk_size reader;
          bytes_read' = bytes_read + chunk_size
      in case utf8_decode chunk of
           Some t \<Rightarrow> Inr (t, reader')
         | None \<Rightarrow>
             if bytes_read' > max_window_size then Inl (UnicodeError bytes_read')
             else if chunk_size = 0 then Inl RecursionError
             else read_and_decode reader' chunk_size max_window_size (Some chunk) bytes_read')"
  by pat_completeness auto
termination
  by (relation "measure (\<lambda>(r, cs, mw, p, br). Suc mw - br)") auto

text \<open>\<^verbatim>\<open>str.split\<close> on the newline character\<close>

fun split_nl :: "pytext \<Rightarrow> pytext list" where
  "split_nl [] = [[]]"
| "split_nl (c # cs) =
     (if c = 10 then [] # split_nl cs
      else (case split_nl cs of [] \<Rightarrow> [[c]] | l # ls \<Rightarrow> (c # l) # ls))"

declare utf8_decode.simps [simp del]
declare read_and_decode.simps [simp del]


lemma utf8_decode_Nil: "utf8_decode [] = Some []"
  by (simp add: utf8_decode.simps)








lemma join_previous_take:
  "join_previous (Some (join_previous p (take m r))) (take n (drop m r)) =
   join_previous p (take (m + n) r)"
  by (cases p) (simp_all add: join_previous_def take_add)

lemma read_and_decode_result:
  "read_and_decode reader cs mw previous br = Inr (t, reader') \<Longrightarrow>
   \<exists>n\<ge>cs. utf8_decode (join_previous previous (take n reader)) = Some t \<and> reader' = drop n reader"
proof (induction reader cs mw previous br rule: read_and_decode.induct)
  case (1 reader cs mw previous br)
  let ?chunk = "join_previous previous (take cs reader)"
  show ?case
  proof (cases "utf8_decode ?chunk")
    case (Some t')
    with "1.prems" have "t = t'" "reader' = drop cs reader"
      by (subst (asm) read_and_decode.simps, simp add: Let_def)+
    with Some show ?thesis by blast
  next
    case None
    with "1.prems" have g: "\<not> br + cs > mw" "cs \<noteq> 0"
      and r: "read_and_decode (drop cs reader) cs mw (Some ?chunk) (br + cs) = Inr (t, reader')"
      by (subst (asm) read_and_decode.simps, simp add: Let_def split: if_splits)+
    from "1.IH" [OF refl refl refl None g r]
    obtain n where n: "n \<ge> cs"
      "utf8_decode (join_previous (Some ?chunk) (take n (drop cs reader))) = Some t"
      "reader' = drop n (drop cs reader)" by blast
    then have "utf8_decode (join_previous previous (take (cs + n) reader)) = Some t"
      by (simp add: join_previous_take)
    moreover have "reader' = drop (cs + n) reader" using n(3) by (simp add: add.commute)
    ultimately show ?thesis using n(1) by (intro exI [of _ "cs + n"]) simp
  qed
qed

lemma read_and_decode_consumes:
  assumes "read_and_decode reader cs mw None 0 = Inr (chunk, reader')" "chunk \<noteq> []"
  shows "length reader' < length reader"
proof -
  from read_and_decode_result [OF assms(1)]
  obtain n where n: "utf8_decode (take n reader) = Some chunk" "reader' = drop n reader"
    by (auto simp: join_previous_def)
  have "take n reader \<noteq> []"
  proof
    assume "take n reader = []"
    with n(1) have "chunk = []" by (simp add: utf8_decode_Nil)
    with assms(2) show False by simp
  qed
  then have "0 < n" "reader \<noteq> []" by auto
  with n(2) show ?thesis by simp
qed

text \<open>The \<^verbatim>\<open>while True\<close> loop of \<^verbatim>\<open>read_lines_zst\<close>, with the chunk size and the
  ceiling as parameters. The result is the list of lines yielded and the exception that
  ended the generator, if any.\<close>

function read_lines_with ::
  "nat \<Rightarrow> nat \<Rightarrow> byte list \<Rightarrow> pytext \<Rightarrow> pytext list \<times> read_error option" where
  "read_lines_with cs mw reader buffer =
     (case read_and_decode reader cs mw None 0 of
        Inl e \<Rightarrow> ([], Some e)
      | Inr (chunk, reader') \<Rightarrow>
          if chunk = [] then ([], None)
          else (let lines = split_nl (buffer @ chunk);
                    (more, err) = read_lines_with cs mw reader' (last lines)
                in (butlast lines @ more, err)))"
  by pat_completeness auto
termination
  by (relation "measure (\<lambda>(cs, mw, reader, buffer). length reader)")
     (auto simp: read_and_decode_consumes)

declare read_lines_with.simps [simp del]

definition read_lines_zst :: "byte list \<Rightarrow> pytext list \<times> read_error option" where
  "read_lines_zst content = read_lines_with (2 ^ 27) (2 ^ 29 * 2) content []"




lemma read_and_decode_error:
  "read_and_decode reader cs mw previous br = Inl (UnicodeError n) \<Longrightarrow>
   mw < n \<and> br + cs \<le> n \<and> utf8_decode (join_previous previous (take (n - br) reader)) = None"
proof (induction reader cs mw previous br rule: read_and_decode.induct)
  case (1 reader cs mw previous br)
  let ?chunk = "join_previous previous (take cs reader)"
  from "1.prems" have none: "utf8_decode ?chunk = None"
    by (subst (asm) read_and_decode.simps) (simp add: Let_def split: option.splits)
  show ?case
  proof (cases "br + cs > mw")
    case True
    with "1.prems" none have "n = br + cs"
      by (subst (asm) read_and_decode.simps) (simp add: Let_def)
    with True none show ?thesis by simp
  next
    case False
    with "1.prems" none have nz: "cs \<noteq> 0"
      and r: "read_and_decode (drop cs reader) cs mw (Some ?chunk) (br + cs) = Inl (UnicodeError n)"
      by (subst (asm) read_and_decode.simps, simp add: Let_def split: if_splits)+
    from "1.IH" [OF refl refl refl none False nz r]
    have ih: "mw < n" "br + cs + cs \<le> n"
      "utf8_decode (join_previous (Some ?chunk) (take (n - (br + cs)) (drop cs reader))) = None"
      by simp_all
    have "cs + (n - (br + cs)) = n - br" using ih(2) by simp
    with ih(3) have "utf8_decode (join_previous previous (take (n - br) reader)) = None"
      by (simp add: join_previous_take)
    with ih show ?thesis by simp
  qed
qed

lemma read_and_decode_total:
  "0 < cs \<Longrightarrow> read_and_decode reader cs mw previous br \<noteq> Inl RecursionError"
proof (induction reader cs mw previous br rule: read_and_decode.induct)
  case (1 reader cs mw previous br)
  show ?case
    using 1 by (subst read_and_decode.simps) (auto simp: Let_def split: option.splits)
qed


text \<open>
  Claim C8. When the bytes read so far do not decode, \<^verbatim>\<open>read_and_decode\<close> appends the next
  chunk to them and tries again; it raises the decode error exactly when decoding fails
  and the running count \<^verbatim>\<open>bytes_read\<close> (one chunk size per read) is above the ceiling.
  So every call with a positive chunk size ends, either with decoded text or with that
  error, raised above the ceiling on bytes that do not decode. \<^verbatim>\<open>read_lines_zst\<close> uses
  a chunk of \<open>2^27\<close> bytes and a ceiling of \<open>2^30\<close>.
\<close>

theorem read_and_decode_retry:
  assumes "0 < cs"
  shows "(case utf8_decode (join_previous previous (take cs reader)) of
            Some t \<Rightarrow> read_and_decode reader cs mw previous br = Inr (t, drop cs reader)
          | None \<Rightarrow>
              if br + cs > mw
              then read_and_decode reader cs mw previous br = Inl (UnicodeError (br + cs))
              else read_and_decode reader cs mw previous br =
                   read_and_decode (drop cs reader) cs mw
                     (Some (join_previous previous (take cs reader))) (br + cs))
         \<and> ((\<exists>t rest. read_and_decode reader cs mw previous br = Inr (t, rest))
            \<or> (\<exists>n. read_and_decode reader cs mw previous br = Inl (UnicodeError n) \<and> mw < n
                  \<and> utf8_decode (join_previous previous (take (n - br) reader)) = None))
         \<and> read_lines_zst content = read_lines_with 134217728 1073741824 content []"
proof (intro conjI)
  show "case utf8_decode (join_previous previous (take cs reader)) of
            Some t \<Rightarrow> read_and_decode reader cs mw previous br = Inr (t, drop cs reader)
          | None \<Rightarrow>
              if br + cs > mw
              then read_and_decode reader cs mw previous br = Inl (UnicodeError (br + cs))
              else read_and_decode reader cs mw previous br =
                   read_and_decode (drop cs reader) cs mw
                     (Some (join_previous previous (take cs reader))) (br + cs)"
    using assms by (subst read_and_decode.simps, simp add: Let_def split: option.splits)+
  show "(\<exists>t rest. read_and_decode reader cs mw previous br = Inr (t, rest))
            \<or> (\<exists>n. read_and_decode reader cs mw previous br = Inl (UnicodeError n) \<and> mw < n
                  \<and> utf8_decode (join_previous previous (take (n - br) reader)) = None)"
  proof (cases "read_and_decode reader cs mw previous br")
    case (Inr p)
    then show ?thesis by (cases p) simp
  next
    case (Inl e)
    show ?thesis
    proof (cases e)
      case (UnicodeError n)
      with Inl read_and_decode_error [of reader cs mw previous br n] show ?thesis by simp
    next
      case RecursionError
      with Inl read_and_decode_total [OF assms, of reader mw previous br] show ?thesis by simp
    qed
  qed
  show "read_lines_zst content = read_lines_with 134217728 1073741824 content []"
    by (simp add: read_lines_zst_def)
qed

theorem read_and_decode_retry_witness:
  "read_and_decode [0x61, 0xC3, 0xA9] 2 8 None 0 =
     read_and_decode [0xA9] 2 8 (Some [0x61, 0xC3]) 2
   \<and> read_and_decode [0xA9] 2 8 (Some [0x61, 0xC3]) 2 = Inr ([97, 233], [])"
proof -
  have pos: "0 < (2::nat)" by simp
  have fails: "utf8_decode (join_previous None (take 2 [0x61, 0xC3, 0xA9])) = None"
    by (simp add: utf8_decode.simps is_cont_def cont_bits_def join_previous_def)
  have ok: "utf8_decode (join_previous (Some [0x61, 0xC3]) (take 2 [0xA9])) = Some [97, 233]"
    by (simp add: utf8_decode.simps is_cont_def cont_bits_def join_previous_def)
  have "read_and_decode [0x61, 0xC3, 0xA9] 2 8 None 0 =
     read_and_decode [0xA9] 2 8 (Some [0x61, 0xC3]) 2"
    using read_and_decode_retry
            [OF pos, where previous = None and reader = "[0x61, 0xC3, 0xA9]" and mw = 8 and br = 0] fails
    by (simp add: join_previous_def numeral_2_eq_2)
  moreover have "read_and_decode [0xA9] 2 8 (Some [0x61, 0xC3]) 2 = Inr ([97, 233], [])"
    using read_and_decode_retry
            [OF pos, where previous = "Some [0x61, 0xC3]" and reader = "[0xA9]" and mw = 8 and br = 2] ok
    by simp
  ultimately show ?thesis by simp
qed








section \<open>The adaptive batch loader\<close>

text \<open>
  \<^verbatim>\<open>BatchProcessor\<close> of \<^verbatim>\<open>batch_processing_utils.py\<close>. Batch sizes and counters are
  Python integers. Times, memory readings and factors are floats: a float is modelled as
  the rational number it stands for, and every arithmetic operation on floats gives the
  exact result rounded to the nearest binary64 number, ties to even (\<open>round64\<close>), as
  IEEE 754 arithmetic does. Infinities, NaN, signed zeros, subnormal numbers and the
  \<^verbatim>\<open>OverflowError\<close> of an integer too large for a float are not modelled: the numbers
  are taken to stay within the normal range. The clock and the memory probe belong to
  the environment, which hands their readings to the model, batch by batch.
\<close>

subsection \<open>Binary64 arithmetic\<close>

definition pow2 :: "int \<Rightarrow> rat" where
  "pow2 e = (if 0 \<le> e then 2 ^ nat e else 1 / 2 ^ nat (- e))"

definition round_half_even :: "rat \<Rightarrow> int" where
  "round_half_even x =
     (let f = \<lfloor>x\<rfloor>; d = x - of_int f
      in if d < 1 / 2 then f else if 1 / 2 < d then f + 1 else if even f then f else f + 1)"

text \<open>The exponent of the leading bit of a non-zero number: \<open>2^e \<le> |x| < 2^(e+1)\<close>.\<close>

definition binary_exponent :: "rat \<Rightarrow> int" where
  "binary_exponent x =
     (let (p, q) = quotient_of \<bar>x\<bar>; d = bitlen p - bitlen q
      in if pow2 d \<le> \<bar>x\<bar> then d else d - 1)"

text \<open>Rounding to 53 significant bits.\<close>

definition round64 :: "rat \<Rightarrow> rat" where
  "round64 x =
     (if x = 0 then 0
      else (let e = binary_exponent x - 52
            in of_int (round_half_even (x / pow2 e)) * pow2 e))"

text \<open>The conversion of an integer to a float, and the float operations of the source.\<close>

definition float_of_int :: "int \<Rightarrow> rat" where
  "float_of_int n = round64 (of_int n)"

definition fadd :: "rat \<Rightarrow> rat \<Rightarrow> rat" where
  "fadd x y = round64 (x + y)"

definition fsub :: "rat \<Rightarrow> rat \<Rightarrow> rat" where
  "fsub x y = round64 (x - y)"

definition fmul :: "rat \<Rightarrow> rat \<Rightarrow> rat" where
  "fmul x y = round64 (x * y)"

definition fdiv :: "rat \<Rightarrow> rat \<Rightarrow> rat" where
  "fdiv x y = round64 (x / y)"

text \<open>The literals \<^verbatim>\<open>0.1\<close> and \<^verbatim>\<open>0.9\<close>; \<^verbatim>\<open>0.5\<close>, \<^verbatim>\<open>1.0\<close>, \<^verbatim>\<open>1.5\<close> and \<^verbatim>\<open>100\<close> are
  binary64 numbers.\<close>

definition float_0_1 :: rat where
  "float_0_1 = round64 (1 / 10)"

definition float_0_9 :: rat where
  "float_0_9 = round64 (9 / 10)"

subsection \<open>The processor\<close>

record BatchConfig =
  initial_batch_size :: int
  min_batch_size :: int
  max_batch_size :: int
  memory_threshold_mb :: rat
  performance_threshold_records_per_sec :: rat
  auto_tune_enabled :: bool
  transaction_scope :: string
  progress_callback_interval :: int
  validation_enabled :: bool

text \<open>\<^verbatim>\<open>BatchMetrics\<close>, with the three counters of \<^verbatim>\<open>AutoTuningMetrics\<close> that the loader
  writes.\<close>

record BatchMetrics =
  records_processed :: int
  successful_batches :: int
  failed_batches :: int
  total_processing_time :: rat
  average_batch_time :: rat
  records_per_second :: rat
  memory_usage_mb :: rat
  auto_adjustments :: int
  adjustments_successful :: int
  adjustments_failed :: int
  optimization_impact :: rat

text \<open>The processor object. \<^verbatim>\<open>self.metrics\<close> and \<^verbatim>\<open>self.performance_history\<close> exist only
  when \<open>enable_monitoring\<close> holds; the fields are not read otherwise. An entry of the
  history is kept as its \<^verbatim>\<open>batch_size\<close>, the one key that is read back.\<close>

record BatchProcessor =
  config :: BatchConfig
  enable_monitoring :: bool
  metrics :: BatchMetrics
  current_batch_size :: int
  performance_history :: "int list"

datatype batch_error = ZeroDivisionError | ValueError | OperationFailed

definition default_config :: BatchConfig where
  "default_config =
     \<lparr>initial_batch_size = 1000, min_batch_size = 50, max_batch_size = 10000,
      memory_threshold_mb = 100, performance_threshold_records_per_sec = 1000,
      auto_tune_enabled = True, transaction_scope = ''batch'',
      progress_callback_interval = 100, validation_enabled = True\<rparr>"

definition new_metrics :: BatchMetrics where
  "new_metrics =
     \<lparr>records_processed = 0, successful_batches = 0, failed_batches = 0,
      total_processing_time = 0, average_batch_time = 0, records_per_second = 0,
      memory_usage_mb = 0, auto_adjustments = 0, adjustments_successful = 0,
      adjustments_failed = 0, optimization_impact = 0\<rparr>"

text \<open>\<^verbatim>\<open>BatchProcessor.__init__\<close>\<close>

definition new_processor :: "BatchConfig \<Rightarrow> bool \<Rightarrow> BatchProcessor" where
  "new_processor cfg monitoring =
     \<lparr>config = cfg, enable_monitoring = monitoring, metrics = new_metrics,
      current_batch_size = initial_batch_size cfg, performance_history = []\<rparr>"

text \<open>\<^verbatim>\<open>int(x)\<close> of a float: truncation towards zero.\<close>

definition py_trunc :: "rat \<Rightarrow> int" where
  "py_trunc x = (if 0 \<le> x then \<lfloor>x\<rfloor> else \<lceil>x\<rceil>)"

text \<open>The two factors of \<^verbatim>\<open>_calculate_optimal_batch_size\<close>. The division of the memory
  factor is guarded only by \<^verbatim>\<open>memory_usage > threshold\<close>, so it can divide by zero (under
  a negative threshold).\<close>

definition memory_factor :: "BatchConfig \<Rightarrow> rat \<Rightarrow> batch_error + rat" where
  "memory_factor cfg memory_usage =
     (if memory_usage > memory_threshold_mb cfg then
        (if memory_usage = 0 then Inl ZeroDivisionError
         else Inr (max (1 / 2) (fdiv (memory_threshold_mb cfg) memory_usage)))
      else Inr 1)"

definition performance_factor :: "BatchConfig \<Rightarrow> rat \<Rightarrow> rat" where
  "performance_factor cfg processing_speed =
     (if processing_speed > 0 \<and> processing_speed < performance_threshold_records_per_sec cfg
      then min (3 / 2) (fdiv (performance_threshold_records_per_sec cfg) processing_speed)
      else 1)"

text \<open>\<^verbatim>\<open>_validate_adjustment_effectiveness\<close>: the prediction, then the bookkeeping on the
  metrics. It divides by the current batch size; the quotient of two integers is the
  float nearest to the exact quotient.\<close>

definition predicted_effective :: "BatchProcessor \<Rightarrow> rat \<Rightarrow> int \<Rightarrow> rat \<Rightarrow> rat \<Rightarrow> bool" where
  "predicted_effective p baseline_memory new_size mf pf =
     (let by_memory = (if mf < 1
                       then baseline_memory > fmul (memory_threshold_mb (config p)) float_0_9
                       else True);
          recent_large_batches =
            length (filter (\<lambda>h. h \<ge> new_size)
                      (drop (length (performance_history p) - 10) (performance_history p)))
      in if pf > 1 \<and> recent_large_batches \<ge> 3 then False else by_memory)"

definition effectiveness_impact :: "BatchProcessor \<Rightarrow> int \<Rightarrow> rat" where
  "effectiveness_impact p new_size =
     (let size_change_ratio = round64 (of_int new_size / of_int (current_batch_size p))
      in fmul \<bar>fsub size_change_ratio 1\<bar> 100)"

definition validate_adjustment_effectiveness ::
  "BatchProcessor \<Rightarrow> rat \<Rightarrow> int \<Rightarrow> rat \<Rightarrow> rat \<Rightarrow> batch_error + (bool \<times> BatchProcessor)" where
  "validate_adjustment_effectiveness p baseline_memory new_size mf pf =
     (if \<not> enable_monitoring p then Inr (True, p)
      else if current_batch_size p = 0 then Inl ZeroDivisionError
      else
        (let effective = predicted_effective p baseline_memory new_size mf pf;
             impact = effectiveness_impact p new_size;
             m = metrics p
         in Inr (effective,
                 p\<lparr>metrics :=
                     (if effective
                      then m\<lparr>optimization_impact := fadd (optimization_impact m) impact\<rparr>
                      else m\<lparr>optimization_impact :=
                               fsub (optimization_impact m) (fdiv impact 2)\<rparr>)\<rparr>)))"

text \<open>\<^verbatim>\<open>new_size\<close> after the limits are applied.\<close>

definition candidate_batch_size :: "BatchConfig \<Rightarrow> int \<Rightarrow> rat \<Rightarrow> rat \<Rightarrow> int" where
  "candidate_batch_size cfg current mf pf =
     (let adjustment_factor = min mf pf;
          new_size = py_trunc (fmul (float_of_int current) adjustment_factor)
      in max (min_batch_size cfg) (min (max_batch_size cfg) new_size))"

text \<open>The 10% threshold: an integer compared with a float, by their exact values.\<close>

definition significant_change :: "int \<Rightarrow> int \<Rightarrow> bool" where
  "significant_change new_size current \<longleftrightarrow>
     of_int \<bar>new_size - current\<bar> > fmul (float_of_int current) float_0_1"

definition count_adjustment :: "bool \<Rightarrow> BatchProcessor \<Rightarrow> BatchProcessor" where
  "count_adjustment adjustment_successful p =
     (let m = metrics p;
          m1 = m\<lparr>auto_adjustments := auto_adjustments m + 1\<rparr>;
          m2 = (if adjustment_successful
                then m1\<lparr>adjustments_successful := adjustments_successful m1 + 1\<rparr>
                else m1\<lparr>adjustments_failed := adjustments_failed m1 + 1\<rparr>)
      in p\<lparr>metrics := m2\<rparr>)"

text \<open>\<^verbatim>\<open>_calculate_optimal_batch_size\<close>: the size it returns, and the processor with its
  metrics updated.\<close>

definition calculate_optimal_batch_size ::
  "BatchProcessor \<Rightarrow> rat \<Rightarrow> rat \<Rightarrow> batch_error + (int \<times> BatchProcessor)" where
  "calculate_optimal_batch_size p processing_speed memory_usage =
     (if \<not> auto_tune_enabled (config p) then Inr (current_batch_size p, p)
      else
        (case memory_factor (config p) memory_usage of
           Inl e \<Rightarrow> Inl e
         | Inr mf \<Rightarrow>
             (let pf = performance_factor (config p) processing_speed;
                  new_size = candidate_batch_size (config p) (current_batch_size p) mf pf
              in if significant_change new_size (current_batch_size p) then
                   (if enable_monitoring p then
                      (case validate_adjustment_effectiveness p memory_usage new_size mf pf of
                         Inl e \<Rightarrow> Inl e
                       | Inr (adjustment_successful, p') \<Rightarrow>
                           Inr (new_size, count_adjustment adjustment_successful p'))
                    else Inr (new_size, p))
                 else Inr (current_batch_size p, p))))"

text \<open>\<^verbatim>\<open>_update_performance_metrics\<close>; \<open>memory\<close> is the reading of
  \<^verbatim>\<open>_get_memory_usage_mb\<close> at this call.\<close>

definition update_performance_metrics ::
  "BatchProcessor \<Rightarrow> int \<Rightarrow> rat \<Rightarrow> int \<Rightarrow> bool \<Rightarrow> rat \<Rightarrow> BatchProcessor" where
  "update_performance_metrics p batch_size processing_time records_count success memory =
     (if \<not> enable_monitoring p then p
      else
        (let m = metrics p;
             m1 = m\<lparr>records_processed := records_processed m + records_count,
                    total_processing_time := fadd (total_processing_time m) processing_time\<rparr>;
             m2 = (if success then m1\<lparr>successful_batches := successful_batches m1 + 1\<rparr>
                   else m1\<lparr>failed_batches := failed_batches m1 + 1\<rparr>);
             total_batches = successful_batches m2 + failed_batches m2;
             m3 = (if total_batches > 0
                   then m2\<lparr>average_batch_time :=
                              fdiv (total_processing_time m2) (float_of_int total_batches)\<rparr>
                   else m2);
             m4 = (if total_processing_time m3 > 0
                   then m3\<lparr>records_per_second :=
                              fdiv (float_of_int (records_processed m3))
                                (total_processing_time m3)\<rparr>
                   else m3);
             m5 = m4\<lparr>memory_usage_mb := memory\<rparr>;
             h = performance_history p @ [batch_size];
             h' = (if length h > 100 then tl h else h)
         in p\<lparr>metrics := m5, performance_history := h'\<rparr>))"

text \<open>An element of \<^verbatim>\<open>data\<close>: something that is not a dict, or a dict. The loader reads
  of a field only whether it is present and truthy, so a dict is kept as the map from
  its keys to the truth value of their values.\<close>

datatype item = NotADict | Dict "string \<rightharpoonup> bool"

definition required_fields :: "string \<Rightarrow> string list" where
  "required_fields operation_type =
     (case map_of [(''posts'', [''id'', ''subreddit'']), (''comments'', [''id'', ''subreddit''])]
             operation_type of
        Some fs \<Rightarrow> fs
      | None \<Rightarrow> [''id''])"

fun item_valid :: "string list \<Rightarrow> item \<Rightarrow> bool" where
  "item_valid fs NotADict = False"
| "item_valid fs (Dict d) = list_all (\<lambda>f. d f = Some True) fs"

text \<open>\<^verbatim>\<open>_validate_batch_data\<close>\<close>

definition validate_batch_data :: "BatchProcessor \<Rightarrow> item list \<Rightarrow> string \<Rightarrow> item list" where
  "validate_batch_data p data operation_type =
     (if \<not> validation_enabled (config p) then data
      else filter (item_valid (required_fields operation_type)) data)"

text \<open>\<^verbatim>\<open>xs[a:b]\<close> with Python's treatment of negative and out-of-range bounds.\<close>

definition slice_bound :: "int \<Rightarrow> int \<Rightarrow> nat" where
  "slice_bound n i = nat (if i < 0 then max 0 (i + n) else min i n)"

definition py_slice :: "'a list \<Rightarrow> int \<Rightarrow> int \<Rightarrow> 'a list" where
  "py_slice xs a b =
     (let n = int (length xs); a' = slice_bound n a; b' = slice_bound n b
      in take (b' - a') (drop a' xs))"

text \<open>\<^verbatim>\<open>range(0, n, step)\<close>; a zero step is a \<^verbatim>\<open>ValueError\<close>.\<close>

definition py_range :: "int \<Rightarrow> int \<Rightarrow> batch_error + int list" where
  "py_range n step =
     (if step = 0 then Inl ValueError
      else if step < 0 \<or> n \<le> 0 then Inr []
      else Inr (map (\<lambda>k. int k * step) [0 ..< nat ((n + step - 1) div step)]))"

text \<open>What \<^verbatim>\<open>batch_operation\<close> returns: the dict read with \<^verbatim>\<open>get(key, 0)\<close>.\<close>

record op_result =
  inserted :: int
  updated :: int
  errors :: int

datatype sql_statement = BEGIN_TRANSACTION | COMMIT | ROLLBACK

text \<open>What the environment does during one batch: whether a statement sent to the
  connection raises, the two clock differences and the three memory readings.\<close>

record batch_env =
  begin_raises :: bool
  commit_raises :: bool
  rollback_raises :: bool
  elapsed_done :: rat
  elapsed_failed :: rat
  memory_at_update :: rat
  memory_at_tune :: rat
  memory_at_failure :: rat

text \<open>The local variables of \<^verbatim>\<open>process_batches\<close>, the processor, and the statements
  passed to \<^verbatim>\<open>connection.execute\<close> so far.\<close>

record run_state =
  processor :: BatchProcessor
  total_processed :: int
  total_errors :: int
  batches_processed :: int
  executed :: "sql_statement list"

definition batch_scope :: "run_state \<Rightarrow> bool" where
  "batch_scope rs \<longleftrightarrow> transaction_scope (config (processor rs)) = ''batch''"

definition execute :: "sql_statement \<Rightarrow> run_state \<Rightarrow> run_state" where
  "execute s rs = rs\<lparr>executed := executed rs @ [s]\<rparr>"

text \<open>\<^verbatim>\<open>validated_data[batch_start:batch_end]\<close>\<close>

definition current_batch :: "run_state \<Rightarrow> item list \<Rightarrow> int \<Rightarrow> item list" where
  "current_batch rs validated_data batch_start =
     py_slice validated_data batch_start
       (min (batch_start + current_batch_size (processor rs)) (int (length validated_data)))"

text \<open>The counters and the metrics after a batch that was executed and committed.\<close>

definition record_result :: "batch_env \<Rightarrow> op_result \<Rightarrow> item list \<Rightarrow> run_state \<Rightarrow> run_state" where
  "record_result e result batch rs =
     (let batch_processed = inserted result + updated result;
          batch_errors = errors result;
          rs' = rs\<lparr>total_processed := total_processed rs + batch_processed,
                    total_errors := total_errors rs + batch_errors,
                    batches_processed := batches_processed rs + 1\<rparr>
      in rs'\<lparr>processor :=
               update_performance_metrics (processor rs') (int (length batch))
                 (elapsed_done e) batch_processed (batch_errors = 0) (memory_at_update e)\<rparr>)"

text \<open>The auto-tuning step at the end of the \<^verbatim>\<open>try\<close>: the result says whether it raised.\<close>

definition auto_tune :: "batch_env \<Rightarrow> run_state \<Rightarrow> bool \<times> run_state" where
  "auto_tune e rs =
     (if auto_tune_enabled (config (processor rs)) \<and> enable_monitoring (processor rs) then
        (case calculate_optimal_batch_size (processor rs)
                (records_per_second (metrics (processor rs))) (memory_at_tune e) of
           Inl err \<Rightarrow> (True, rs)
         | Inr (new_size, p') \<Rightarrow> (False, rs\<lparr>processor := p'\<lparr>current_batch_size := new_size\<rparr>\<rparr>))
      else (False, rs))"

text \<open>The body of the \<^verbatim>\<open>try\<close>. The result says whether an exception left it, and gives
  the state at that point. No progress callback is passed.\<close>

definition try_batch ::
  "batch_env \<Rightarrow> (item list \<Rightarrow> batch_error + op_result) \<Rightarrow> item list \<Rightarrow> run_state
     \<Rightarrow> bool \<times> run_state" where
  "try_batch e batch_operation batch rs =
     (let rs1 = (if batch_scope rs then execute BEGIN_TRANSACTION rs else rs) in
      if batch_scope rs \<and> begin_raises e then (True, rs1)
      else
        (case batch_operation batch of
           Inl err \<Rightarrow> (True, rs1)
         | Inr result \<Rightarrow>
             (let rs2 = (if batch_scope rs then execute COMMIT rs1 else rs1) in
              if batch_scope rs \<and> commit_raises e then (True, rs2)
              else auto_tune e (record_result e result batch rs2))))"

text \<open>The \<^verbatim>\<open>except Exception\<close> branch.\<close>

definition batch_failed :: "batch_env \<Rightarrow> item list \<Rightarrow> run_state \<Rightarrow> run_state" where
  "batch_failed e batch rs =
     (let rs1 = (if batch_scope rs then execute ROLLBACK rs else rs);
          rs2 = rs1\<lparr>processor :=
                    update_performance_metrics (processor rs1) (int (length batch))
                      (elapsed_failed e) 0 False (memory_at_failure e)\<rparr>
      in rs2\<lparr>total_errors := total_errors rs2 + int (length batch)\<rparr>)"

text \<open>One turn of the \<^verbatim>\<open>for\<close> loop.\<close>

definition process_batch ::
  "batch_env \<Rightarrow> (item list \<Rightarrow> batch_error + op_result) \<Rightarrow> item list \<Rightarrow> int \<Rightarrow> run_state
     \<Rightarrow> run_state" where
  "process_batch e batch_operation validated_data batch_start rs =
     (let batch = current_batch rs validated_data batch_start in
      case try_batch e batch_operation batch rs of
        (True, rs') \<Rightarrow> batch_failed e batch rs'
      | (False, rs') \<Rightarrow> rs')"

text \<open>The \<^verbatim>\<open>for\<close> loop over the batch starts; \<open>k\<close> counts the turns.\<close>

fun batches_loop ::
  "(nat \<Rightarrow> batch_env) \<Rightarrow> (item list \<Rightarrow> batch_error + op_result) \<Rightarrow> item list \<Rightarrow> nat
     \<Rightarrow> int list \<Rightarrow> run_state \<Rightarrow> run_state" where
  "batches_loop env batch_operation validated_data k [] rs = rs"
| "batches_loop env batch_operation validated_data k (batch_start # starts) rs =
     batches_loop env batch_operation validated_data (Suc k) starts
       (process_batch (env k) batch_operation validated_data batch_start rs)"

definition start_state :: "BatchProcessor \<Rightarrow> run_state" where
  "start_state p =
     \<lparr>processor = p, total_processed = 0, total_errors = 0, batches_processed = 0,
      executed = []\<rparr>"

text \<open>\<^verbatim>\<open>process_batches\<close>: the final state holds the returned totals and the processor.
  The range of batch starts is built once, from the batch size at the start of the run.\<close>

definition process_batches ::
  "BatchProcessor \<Rightarrow> item list \<Rightarrow> string \<Rightarrow> (item list \<Rightarrow> batch_error + op_result)
     \<Rightarrow> (nat \<Rightarrow> batch_env) \<Rightarrow> batch_error + run_state" where
  "process_batches p data operation_type batch_operation env =
     (if data = [] then Inr (start_state p)
      else
        (let validated_data = validate_batch_data p data operation_type in
         if validated_data = [] then Inr (start_state p)
         else
           (case py_range (int (length validated_data)) (current_batch_size p) of
              Inl err \<Rightarrow> Inl err
            | Inr starts \<Rightarrow>
                Inr (batches_loop env batch_operation validated_data 0 starts (start_state p)))))"

text \<open>The state of the run when turn \<open>k\<close> of the loop begins.\<close>

definition state_at ::
  "BatchProcessor \<Rightarrow> item list \<Rightarrow> (item list \<Rightarrow> batch_error + op_result)
     \<Rightarrow> (nat \<Rightarrow> batch_env) \<Rightarrow> int list \<Rightarrow> nat \<Rightarrow> run_state" where
  "state_at p validated_data batch_operation env starts k =
     batches_loop env batch_operation validated_data 0 (take k starts) (start_state p)"

definition in_bounds :: "BatchProcessor \<Rightarrow> bool" where
  "in_bounds p \<longleftrightarrow>
     min_batch_size (config p) \<le> current_batch_size p
     \<and> current_batch_size p \<le> max_batch_size (config p)"

text \<open>The resize rule in the words of the specification.\<close>

definition spec_memory_factor :: "rat \<Rightarrow> rat \<Rightarrow> rat" where
  "spec_memory_factor threshold used = min 1 (threshold / used)"

definition spec_performance_factor :: "rat \<Rightarrow> rat \<Rightarrow> rat" where
  "spec_performance_factor target observed = min (3 / 2) (target / observed)"

definition spec_batch_size :: "BatchConfig \<Rightarrow> int \<Rightarrow> rat \<Rightarrow> rat \<Rightarrow> rat" where
  "spec_batch_size cfg current observed used =
     (let candidate = of_int current
                      * min (spec_memory_factor (memory_threshold_mb cfg) used)
                            (spec_performance_factor (performance_threshold_records_per_sec cfg) observed);
          clamped = max (of_int (min_batch_size cfg)) (min (of_int (max_batch_size cfg)) candidate)
      in if \<bar>clamped - of_int current\<bar> > of_int current * (1 / 10) then clamped
         else of_int current)"

text \<open>The resize rule as amended: the memory factor applies above the threshold only and
  is never below one half, the performance factor applies to a positive throughput below
  the target only, and the arithmetic is that of floats.\<close>

definition tuned_size :: "BatchConfig \<Rightarrow> int \<Rightarrow> rat \<Rightarrow> rat \<Rightarrow> int" where
  "tuned_size cfg current observed used =
     (let threshold = memory_threshold_mb cfg;
          target = performance_threshold_records_per_sec cfg;
          memory_factor = (if threshold < used then max (1 / 2) (round64 (threshold / used))
                           else 1);
          performance_factor = (if 0 < observed \<and> observed < target
                                then min (3 / 2) (round64 (target / observed)) else 1);
          candidate = py_trunc (round64 (round64 (of_int current)
                                         * min memory_factor performance_factor));
          clamped = max (min_batch_size cfg) (min (max_batch_size cfg) candidate)
      in if round64 (round64 (of_int current) * round64 (1 / 10)) < of_int \<bar>clamped - current\<bar>
         then clamped else current)"

text \<open>The throughput that the metrics hold after a batch: all records processed so far
  over all the time spent so far.\<close>

definition throughput_after ::
  "BatchProcessor \<Rightarrow> batch_env \<Rightarrow> item list \<Rightarrow> op_result \<Rightarrow> rat" where
  "throughput_after p e batch result =
     records_per_second
       (metrics (update_performance_metrics p (int (length batch)) (elapsed_done e)
                   (inserted result + updated result) (errors result = 0) (memory_at_update e)))"


subsection \<open>Properties of the batch loader\<close>

lemma validate_keeps:
  "validate_adjustment_effectiveness p bm ns mf pf = Inr (b, p') \<Longrightarrow>
   config p' = config p \<and> current_batch_size p' = current_batch_size p
   \<and> enable_monitoring p' = enable_monitoring p"
proof (cases "\<not> enable_monitoring p \<or> current_batch_size p = 0")
  case True
  assume "validate_adjustment_effectiveness p bm ns mf pf = Inr (b, p')"
  with True have "p' = p"
    by (auto simp: validate_adjustment_effectiveness_def split: if_splits)
  then show ?thesis by simp
next
  case False
  assume "validate_adjustment_effectiveness p bm ns mf pf = Inr (b, p')"
  with False have "\<exists>m'. p' = p\<lparr>metrics := m'\<rparr>"
    by (auto simp: validate_adjustment_effectiveness_def Let_def)
  then obtain m' where "p' = p\<lparr>metrics := m'\<rparr>" ..
  then show ?thesis by simp
qed

lemma count_adjustment_keeps:
  "config (count_adjustment b p) = config p
   \<and> current_batch_size (count_adjustment b p) = current_batch_size p
   \<and> enable_monitoring (count_adjustment b p) = enable_monitoring p"
  by (simp add: count_adjustment_def Let_def)

lemma calculate_cases:
  assumes "calculate_optimal_batch_size p speed mem = Inr (n, p')"
  obtains (kept) "n = current_batch_size p" "p' = p"
  | (adopted) mf where "auto_tune_enabled (config p)" "memory_factor (config p) mem = Inr mf"
      "n = candidate_batch_size (config p) (current_batch_size p) mf
             (performance_factor (config p) speed)"
      "significant_change n (current_batch_size p)"
      "p' = p \<or> (\<exists>b q. validate_adjustment_effectiveness p mem n mf
                        (performance_factor (config p) speed) = Inr (b, q)
                    \<and> p' = count_adjustment b q)"
proof (cases "auto_tune_enabled (config p)")
  case False
  with assms have "n = current_batch_size p" "p' = p"
    by (auto simp: calculate_optimal_batch_size_def)
  then show ?thesis by (rule kept)
next
  case auto: True
  show ?thesis
  proof (cases "memory_factor (config p) mem")
    case (Inl e)
    with auto assms have False by (simp add: calculate_optimal_batch_size_def)
    then show ?thesis ..
  next
    case (Inr mf)
    let ?n = "candidate_batch_size (config p) (current_batch_size p) mf
                (performance_factor (config p) speed)"
    show ?thesis
    proof (cases "significant_change ?n (current_batch_size p)")
      case False
      with auto Inr assms have "n = current_batch_size p" "p' = p"
        by (auto simp: calculate_optimal_batch_size_def Let_def)
      then show ?thesis by (rule kept)
    next
      case sc: True
      show ?thesis
      proof (cases "enable_monitoring p")
        case False
        with auto Inr sc assms have r: "n = ?n" "p' = p"
          by (auto simp: calculate_optimal_batch_size_def Let_def)
        show ?thesis
          using auto Inr r(1) sc [folded r(1)] by (rule adopted) (simp add: r(2))
      next
        case True
        with auto Inr sc assms have "\<exists>b q. validate_adjustment_effectiveness p mem ?n mf
                (performance_factor (config p) speed) = Inr (b, q)
              \<and> n = ?n \<and> p' = count_adjustment b q"
          by (auto simp: calculate_optimal_batch_size_def Let_def split: sum.splits)
        then obtain b q where
          v: "validate_adjustment_effectiveness p mem ?n mf
                (performance_factor (config p) speed) = Inr (b, q)"
          and r: "n = ?n" "p' = count_adjustment b q" by blast
        show ?thesis
          using auto Inr r(1) sc [folded r(1)]
          by (rule adopted) (use v r in blast)
      qed
    qed
  qed
qed

lemma calculate_keeps:
  assumes "calculate_optimal_batch_size p speed mem = Inr (n, p')"
  shows "config p' = config p \<and> current_batch_size p' = current_batch_size p
         \<and> enable_monitoring p' = enable_monitoring p"
  using assms
proof (cases rule: calculate_cases)
  case kept
  then show ?thesis by simp
next
  case (adopted mf)
  from adopted(5) show ?thesis
  proof
    assume "p' = p"
    then show ?thesis by simp
  next
    assume "\<exists>b q. validate_adjustment_effectiveness p mem n mf
                   (performance_factor (config p) speed) = Inr (b, q)
                 \<and> p' = count_adjustment b q"
    then obtain b q where "validate_adjustment_effectiveness p mem n mf
                   (performance_factor (config p) speed) = Inr (b, q)"
      "p' = count_adjustment b q" by blast
    then show ?thesis using validate_keeps count_adjustment_keeps by metis
  qed
qed

lemma candidate_in_bounds:
  "min_batch_size cfg \<le> max_batch_size cfg \<Longrightarrow>
   min_batch_size cfg \<le> candidate_batch_size cfg cur mf pf
   \<and> candidate_batch_size cfg cur mf pf \<le> max_batch_size cfg"
  by (simp add: candidate_batch_size_def Let_def)

lemma calculate_in_bounds:
  assumes "calculate_optimal_batch_size p speed mem = Inr (n, p')" "in_bounds p"
  shows "min_batch_size (config p) \<le> n \<and> n \<le> max_batch_size (config p)"
  using assms(1)
proof (cases rule: calculate_cases)
  case kept
  with assms(2) show ?thesis by (simp add: in_bounds_def)
next
  case (adopted mf)
  from assms(2) have "min_batch_size (config p) \<le> max_batch_size (config p)"
    by (simp add: in_bounds_def)
  with adopted(3) show ?thesis by (simp add: candidate_in_bounds)
qed

lemma update_keeps:
  "config (update_performance_metrics p bs t rc ok m) = config p
   \<and> current_batch_size (update_performance_metrics p bs t rc ok m) = current_batch_size p
   \<and> enable_monitoring (update_performance_metrics p bs t rc ok m) = enable_monitoring p"
  by (simp add: update_performance_metrics_def Let_def)

lemma update_in_bounds:
  "in_bounds (update_performance_metrics p bs t rc ok m) = in_bounds p"
  by (simp add: in_bounds_def update_keeps)

lemma calculate_adopted_in_bounds:
  assumes "calculate_optimal_batch_size p sp m = Inr (n, p')" "in_bounds p"
  shows "in_bounds (p'\<lparr>current_batch_size := n\<rparr>)"
  using calculate_in_bounds [OF assms] calculate_keeps [OF assms(1)]
  by (simp add: in_bounds_def)

lemma execute_processor: "processor (execute s rs) = processor rs"
  by (simp add: execute_def)

lemma record_result_in_bounds:
  "in_bounds (processor (record_result e result batch rs)) = in_bounds (processor rs)"
  by (simp add: record_result_def Let_def update_in_bounds)

lemma auto_tune_in_bounds:
  assumes "auto_tune e rs = (raised, rs')" "in_bounds (processor rs)"
  shows "in_bounds (processor rs')"
proof (cases "auto_tune_enabled (config (processor rs)) \<and> enable_monitoring (processor rs)")
  case False
  with assms show ?thesis by (auto simp: auto_tune_def)
next
  case True
  show ?thesis
  proof (cases "calculate_optimal_batch_size (processor rs)
                  (records_per_second (metrics (processor rs))) (memory_at_tune e)")
    case (Inl err)
    with True assms show ?thesis by (auto simp: auto_tune_def)
  next
    case (Inr r)
    obtain n p' where r: "r = (n, p')" by (cases r)
    from calculate_adopted_in_bounds [OF Inr [unfolded r] assms(2)]
    have "in_bounds (p'\<lparr>current_batch_size := n\<rparr>)" .
    with True Inr r assms(1) show ?thesis by (auto simp: auto_tune_def)
  qed
qed

lemma try_batch_in_bounds:
  assumes "try_batch e op batch rs = (raised, rs')" "in_bounds (processor rs)"
  shows "in_bounds (processor rs')"
proof (cases "batch_scope rs \<and> begin_raises e")
  case True
  with assms show ?thesis by (auto simp: try_batch_def Let_def execute_processor)
next
  case nb: False
  show ?thesis
  proof (cases "op batch")
    case (Inl err)
    with nb assms show ?thesis
      by (auto simp: try_batch_def Let_def execute_processor split: if_splits)
  next
    case (Inr result)
    show ?thesis
    proof (cases "batch_scope rs \<and> commit_raises e")
      case True
      with nb Inr assms show ?thesis
        by (auto simp: try_batch_def Let_def execute_processor split: if_splits)
    next
      case False
      let ?rs2 = "if batch_scope rs then execute COMMIT (execute BEGIN_TRANSACTION rs) else rs"
      from nb Inr False assms(1)
      have t: "auto_tune e (record_result e result batch ?rs2) = (raised, rs')"
        by (auto simp: try_batch_def Let_def split: if_splits)
      have "in_bounds (processor (record_result e result batch ?rs2))"
        using assms(2) by (simp add: record_result_in_bounds execute_processor)
      with t show ?thesis by (rule auto_tune_in_bounds)
    qed
  qed
qed

lemma batch_failed_in_bounds:
  "in_bounds (processor (batch_failed e batch rs)) = in_bounds (processor rs)"
  by (simp add: batch_failed_def Let_def execute_processor update_in_bounds)

lemma process_batch_in_bounds:
  assumes "in_bounds (processor rs)"
  shows "in_bounds (processor (process_batch e op data start rs))"
proof -
  obtain raised rs' where t: "try_batch e op (current_batch rs data start) rs = (raised, rs')"
    by (cases "try_batch e op (current_batch rs data start) rs") auto
  from t assms have "in_bounds (processor rs')" by (rule try_batch_in_bounds)
  with t show ?thesis
    by (cases raised) (simp_all add: process_batch_def Let_def batch_failed_in_bounds)
qed

lemma batches_loop_in_bounds:
  "in_bounds (processor rs) \<Longrightarrow>
   in_bounds (processor (batches_loop env op data k starts rs))"
  by (induction starts arbitrary: k rs) (simp_all add: process_batch_in_bounds)

lemma batch_failed_fields:
  "executed (batch_failed e batch rs) =
     (if batch_scope rs then executed rs @ [ROLLBACK] else executed rs)
   \<and> total_errors (batch_failed e batch rs) = total_errors rs + int (length batch)
   \<and> total_processed (batch_failed e batch rs) = total_processed rs
   \<and> batches_processed (batch_failed e batch rs) = batches_processed rs
   \<and> current_batch_size (processor (batch_failed e batch rs)) = current_batch_size (processor rs)"
  by (simp add: batch_failed_def Let_def execute_def update_keeps)

lemma process_batches_returns:
  "current_batch_size p \<noteq> 0 \<Longrightarrow>
   \<exists>rs. process_batches p data operation_type batch_operation env = Inr rs"
  by (simp add: process_batches_def Let_def py_range_def)

lemma validate_succeeds:
  "current_batch_size p \<noteq> 0 \<Longrightarrow>
   \<exists>b q. validate_adjustment_effectiveness p bm ns mf pf = Inr (b, q)"
  by (auto simp: validate_adjustment_effectiveness_def Let_def)

lemma memory_factor_tuned:
  assumes "used \<noteq> 0 \<or> 0 \<le> memory_threshold_mb cfg"
  shows "memory_factor cfg used =
           Inr (if memory_threshold_mb cfg < used
                then max (1 / 2) (round64 (memory_threshold_mb cfg / used)) else 1)"
  using assms by (auto simp: memory_factor_def fdiv_def)

lemma calculate_tuned:
  assumes auto: "auto_tune_enabled (config p)"
    and nz: "current_batch_size p \<noteq> 0"
    and mem: "used \<noteq> 0 \<or> 0 \<le> memory_threshold_mb (config p)"
  shows "\<exists>p'. calculate_optimal_batch_size p observed used =
           Inr (tuned_size (config p) (current_batch_size p) observed used, p')"
proof -
  let ?mf = "if memory_threshold_mb (config p) < used
             then max (1 / 2) (round64 (memory_threshold_mb (config p) / used)) else 1"
  let ?pf = "performance_factor (config p) observed"
  let ?n = "candidate_batch_size (config p) (current_batch_size p) ?mf ?pf"
  have mf: "memory_factor (config p) used = Inr ?mf"
    using mem by (rule memory_factor_tuned)
  obtain b q where v: "validate_adjustment_effectiveness p used ?n ?mf ?pf = Inr (b, q)"
    using validate_succeeds [OF nz] by blast
  have "\<exists>p'. calculate_optimal_batch_size p observed used =
          Inr (if significant_change ?n (current_batch_size p) then ?n else current_batch_size p, p')"
    using auto mf v
    by (cases "enable_monitoring p") (simp_all add: calculate_optimal_batch_size_def Let_def)
  then obtain p' where r: "calculate_optimal_batch_size p observed used =
          Inr (if significant_change ?n (current_batch_size p) then ?n else current_batch_size p, p')" ..
  have "tuned_size (config p) (current_batch_size p) observed used =
          (if significant_change ?n (current_batch_size p) then ?n else current_batch_size p)"
    by (simp only: tuned_size_def candidate_batch_size_def significant_change_def Let_def
          performance_factor_def fmul_def fdiv_def float_of_int_def float_0_1_def)
  with r show ?thesis by auto
qed

lemma auto_tune_tuned:
  assumes auto: "auto_tune_enabled (config (processor rs))"
    and monitoring: "enable_monitoring (processor rs)"
    and nz: "current_batch_size (processor rs) \<noteq> 0"
    and mem: "memory_at_tune e \<noteq> 0 \<or> 0 \<le> memory_threshold_mb (config (processor rs))"
  shows "\<exists>rs'. auto_tune e rs = (False, rs')
           \<and> current_batch_size (processor rs') =
               tuned_size (config (processor rs)) (current_batch_size (processor rs))
                 (records_per_second (metrics (processor rs))) (memory_at_tune e)
           \<and> total_processed rs' = total_processed rs \<and> total_errors rs' = total_errors rs
           \<and> batches_processed rs' = batches_processed rs \<and> executed rs' = executed rs"
proof -
  obtain p' where "calculate_optimal_batch_size (processor rs)
                     (records_per_second (metrics (processor rs))) (memory_at_tune e) =
                   Inr (tuned_size (config (processor rs)) (current_batch_size (processor rs))
                          (records_per_second (metrics (processor rs))) (memory_at_tune e), p')"
    using calculate_tuned [OF auto nz mem] by blast
  with auto monitoring show ?thesis by (simp add: auto_tune_def)
qed

lemma auto_tune_keeps:
  assumes "auto_tune e rs = (raised, rs')"
  shows "config (processor rs') = config (processor rs)
         \<and> enable_monitoring (processor rs') = enable_monitoring (processor rs)"
proof (cases "auto_tune_enabled (config (processor rs)) \<and> enable_monitoring (processor rs)")
  case False
  with assms show ?thesis by (auto simp: auto_tune_def)
next
  case True
  show ?thesis
  proof (cases "calculate_optimal_batch_size (processor rs)
                  (records_per_second (metrics (processor rs))) (memory_at_tune e)")
    case (Inl err)
    with True assms show ?thesis by (auto simp: auto_tune_def)
  next
    case (Inr r)
    obtain n p' where r: "r = (n, p')" by (cases r)
    from calculate_keeps [OF Inr [unfolded r]]
    have "config p' = config (processor rs)" "enable_monitoring p' = enable_monitoring (processor rs)"
      by simp_all
    with True Inr r assms show ?thesis by (auto simp: auto_tune_def)
  qed
qed

lemma auto_tune_off:
  "\<not> (auto_tune_enabled (config (processor rs)) \<and> enable_monitoring (processor rs)) \<Longrightarrow>
   auto_tune e rs = (False, rs)"
  by (auto simp: auto_tune_def)

lemma record_result_keeps:
  "config (processor (record_result e result batch rs)) = config (processor rs)
   \<and> enable_monitoring (processor (record_result e result batch rs)) = enable_monitoring (processor rs)
   \<and> current_batch_size (processor (record_result e result batch rs)) =
       current_batch_size (processor rs)"
  by (simp add: record_result_def Let_def update_keeps)

lemma try_batch_keeps:
  assumes "try_batch e op batch rs = (raised, rs')"
  shows "config (processor rs') = config (processor rs)
         \<and> enable_monitoring (processor rs') = enable_monitoring (processor rs)"
proof (cases "batch_scope rs \<and> begin_raises e")
  case True
  with assms show ?thesis by (auto simp: try_batch_def Let_def execute_processor)
next
  case nb: False
  show ?thesis
  proof (cases "op batch")
    case (Inl err)
    with nb assms show ?thesis
      by (auto simp: try_batch_def Let_def execute_processor split: if_splits)
  next
    case (Inr result)
    show ?thesis
    proof (cases "batch_scope rs \<and> commit_raises e")
      case True
      with nb Inr assms show ?thesis
        by (auto simp: try_batch_def Let_def execute_processor split: if_splits)
    next
      case False
      let ?rs2 = "if batch_scope rs then execute COMMIT (execute BEGIN_TRANSACTION rs) else rs"
      from nb Inr False assms
      have t: "auto_tune e (record_result e result batch ?rs2) = (raised, rs')"
        by (auto simp: try_batch_def Let_def split: if_splits)
      have "config (processor (record_result e result batch ?rs2)) = config (processor rs)"
        "enable_monitoring (processor (record_result e result batch ?rs2)) =
           enable_monitoring (processor rs)"
        by (simp_all add: record_result_keeps execute_processor)
      with auto_tune_keeps [OF t] show ?thesis by simp
    qed
  qed
qed

lemma try_batch_off:
  assumes off: "\<not> (auto_tune_enabled (config (processor rs)) \<and> enable_monitoring (processor rs))"
    and run: "try_batch e op batch rs = (raised, rs')"
  shows "current_batch_size (processor rs') = current_batch_size (processor rs)"
proof (cases "batch_scope rs \<and> begin_raises e")
  case True
  with run show ?thesis by (auto simp: try_batch_def Let_def execute_processor)
next
  case nb: False
  show ?thesis
  proof (cases "op batch")
    case (Inl err)
    with nb run show ?thesis
      by (auto simp: try_batch_def Let_def execute_processor split: if_splits)
  next
    case (Inr result)
    show ?thesis
    proof (cases "batch_scope rs \<and> commit_raises e")
      case True
      with nb Inr run show ?thesis
        by (auto simp: try_batch_def Let_def execute_processor split: if_splits)
    next
      case False
      let ?rs2 = "if batch_scope rs then execute COMMIT (execute BEGIN_TRANSACTION rs) else rs"
      let ?rs3 = "record_result e result batch ?rs2"
      from nb Inr False run
      have t: "auto_tune e ?rs3 = (raised, rs')"
        by (auto simp: try_batch_def Let_def split: if_splits)
      have keep: "config (processor ?rs3) = config (processor rs)"
        "enable_monitoring (processor ?rs3) = enable_monitoring (processor rs)"
        "current_batch_size (processor ?rs3) = current_batch_size (processor rs)"
        by (simp_all add: record_result_keeps execute_processor)
      with off have "auto_tune e ?rs3 = (False, ?rs3)" by (intro auto_tune_off) simp
      with t have "rs' = ?rs3" by simp
      with keep(3) show ?thesis by simp
    qed
  qed
qed

lemma batch_failed_keeps:
  "config (processor (batch_failed e batch rs)) = config (processor rs)
   \<and> enable_monitoring (processor (batch_failed e batch rs)) = enable_monitoring (processor rs)
   \<and> current_batch_size (processor (batch_failed e batch rs)) = current_batch_size (processor rs)"
  by (simp add: batch_failed_def Let_def execute_processor update_keeps)

lemma process_batch_keeps:
  "config (processor (process_batch e op data start rs)) = config (processor rs)
   \<and> enable_monitoring (processor (process_batch e op data start rs)) =
       enable_monitoring (processor rs)"
proof -
  obtain raised rs' where t: "try_batch e op (current_batch rs data start) rs = (raised, rs')"
    by (cases "try_batch e op (current_batch rs data start) rs") auto
  from try_batch_keeps [OF t] t show ?thesis
    by (cases raised) (simp_all add: process_batch_def Let_def batch_failed_keeps)
qed

lemma process_batch_off:
  assumes "\<not> (auto_tune_enabled (config (processor rs)) \<and> enable_monitoring (processor rs))"
  shows "current_batch_size (processor (process_batch e op data start rs)) =
           current_batch_size (processor rs)"
proof -
  obtain raised rs' where t: "try_batch e op (current_batch rs data start) rs = (raised, rs')"
    by (cases "try_batch e op (current_batch rs data start) rs") auto
  from try_batch_off [OF assms t] t show ?thesis
    by (cases raised) (simp_all add: process_batch_def Let_def batch_failed_keeps)
qed

lemma batches_loop_keeps:
  "config (processor (batches_loop env op data k starts rs)) = config (processor rs)
   \<and> enable_monitoring (processor (batches_loop env op data k starts rs)) =
       enable_monitoring (processor rs)"
  by (induction starts arbitrary: k rs) (simp_all add: process_batch_keeps)

lemma batches_loop_off:
  "\<not> (auto_tune_enabled (config (processor rs)) \<and> enable_monitoring (processor rs)) \<Longrightarrow>
   current_batch_size (processor (batches_loop env op data k starts rs)) =
     current_batch_size (processor rs)"
proof (induction starts arbitrary: k rs)
  case Nil
  then show ?case by simp
next
  case (Cons s starts)
  let ?rs = "process_batch (env k) op data s rs"
  have "\<not> (auto_tune_enabled (config (processor ?rs)) \<and> enable_monitoring (processor ?rs))"
    using Cons.prems by (simp add: process_batch_keeps)
  then have "current_batch_size (processor (batches_loop env op data (Suc k) starts ?rs)) =
             current_batch_size (processor ?rs)"
    by (rule Cons.IH)
  with Cons.prems show ?case by (simp add: process_batch_off)
qed

lemma process_batches_off:
  assumes "\<not> (auto_tune_enabled (config p) \<and> enable_monitoring p)"
    and "process_batches p data operation_type op env = Inr final"
  shows "current_batch_size (processor final) = current_batch_size p"
proof -
  have start: "processor (start_state p) = p" by (simp add: start_state_def)
  have "\<And>vd starts. current_batch_size (processor (batches_loop env op vd 0 starts (start_state p))) =
          current_batch_size p"
    using batches_loop_off [of "start_state p"] assms(1) by (simp add: start)
  with assms(2) start show ?thesis
    by (auto simp: process_batches_def Let_def split: if_splits sum.splits)
qed

lemma batches_loop_append:
  "batches_loop env op data k (xs @ ys) rs =
   batches_loop env op data (k + length xs) ys (batches_loop env op data k xs rs)"
  by (induction xs arbitrary: k rs) simp_all

lemma process_batches_split:
  assumes vd: "validate_batch_data p data operation_type = vd" "vd \<noteq> []"
    and starts: "py_range (int (length vd)) (current_batch_size p) = Inr starts"
    and k: "k < length starts"
  shows "process_batches p data operation_type op env =
           Inr (batches_loop env op vd (Suc k) (drop (Suc k) starts)
                  (process_batch (env k) op vd (starts ! k) (state_at p vd op env starts k)))"
proof -
  have "data \<noteq> []"
  proof
    assume "data = []"
    then have "validate_batch_data p data operation_type = []"
      by (simp add: validate_batch_data_def)
    with vd show False by simp
  qed
  with vd starts have run: "process_batches p data operation_type op env =
      Inr (batches_loop env op vd 0 starts (start_state p))"
    by (simp add: process_batches_def Let_def)
  have "starts = take k starts @ (starts ! k # drop (Suc k) starts)"
    using k by (simp add: id_take_nth_drop [symmetric])
  then have "batches_loop env op vd 0 starts (start_state p) =
             batches_loop env op vd 0 (take k starts @ (starts ! k # drop (Suc k) starts))
               (start_state p)"
    by simp
  also have "\<dots> = batches_loop env op vd (0 + length (take k starts))
                      (starts ! k # drop (Suc k) starts) (state_at p vd op env starts k)"
    unfolding state_at_def by (rule batches_loop_append)
  also have "\<dots> = batches_loop env op vd (Suc k) (drop (Suc k) starts)
                      (process_batch (env k) op vd (starts ! k) (state_at p vd op env starts k))"
    using k by simp
  finally show ?thesis using run by simp
qed

lemma state_at_keeps:
  "config (processor (state_at p vd op env starts k)) = config p
   \<and> enable_monitoring (processor (state_at p vd op env starts k)) = enable_monitoring p"
  by (simp add: state_at_def batches_loop_keeps start_state_def)

lemma state_at_in_bounds:
  "in_bounds p \<Longrightarrow> in_bounds (processor (state_at p vd op env starts k))"
  unfolding state_at_def by (rule batches_loop_in_bounds) (simp add: start_state_def)

lemma committed_batch:
  assumes began: "\<not> (batch_scope rs \<and> begin_raises e)"
    and finished: "op (current_batch rs vd start) = Inr result"
    and committed: "\<not> (batch_scope rs \<and> commit_raises e)"
    and auto: "auto_tune_enabled (config (processor rs))"
    and monitoring: "enable_monitoring (processor rs)"
    and nz: "current_batch_size (processor rs) \<noteq> 0"
    and mem: "memory_at_tune e \<noteq> 0 \<or> 0 \<le> memory_threshold_mb (config (processor rs))"
  shows "current_batch_size (processor (process_batch e op vd start rs)) =
           tuned_size (config (processor rs)) (current_batch_size (processor rs))
             (throughput_after (processor rs) e (current_batch rs vd start) result)
             (memory_at_tune e)"
proof -
  let ?batch = "current_batch rs vd start"
  let ?rs2 = "if batch_scope rs then execute COMMIT (execute BEGIN_TRANSACTION rs) else rs"
  let ?rs3 = "record_result e result ?batch ?rs2"
  have t: "try_batch e op ?batch rs = auto_tune e ?rs3"
    using began finished committed by (auto simp: try_batch_def Let_def)
  have p2: "processor ?rs2 = processor rs" by (simp add: execute_processor)
  have keep: "config (processor ?rs3) = config (processor rs)"
    "enable_monitoring (processor ?rs3) = enable_monitoring (processor rs)"
    "current_batch_size (processor ?rs3) = current_batch_size (processor rs)"
    by (simp_all add: record_result_keeps execute_processor)
  have speed: "records_per_second (metrics (processor ?rs3)) =
                 throughput_after (processor rs) e ?batch result"
    by (simp add: record_result_def Let_def throughput_after_def p2 execute_def)
  obtain rs' where rs': "auto_tune e ?rs3 = (False, rs')"
    "current_batch_size (processor rs') =
       tuned_size (config (processor ?rs3)) (current_batch_size (processor ?rs3))
         (records_per_second (metrics (processor ?rs3))) (memory_at_tune e)"
    using auto_tune_tuned [of ?rs3 e] auto monitoring nz mem keep by auto
  have "process_batch e op vd start rs = rs'"
    using t rs'(1) by (simp add: process_batch_def Let_def)
  with rs'(2) keep speed show ?thesis by simp
qed

lemma failed_batch:
  assumes scope: "batch_scope rs"
    and began: "\<not> begin_raises e"
    and raised: "op (current_batch rs vd start) = Inl err"
  shows "executed (process_batch e op vd start rs) = executed rs @ [BEGIN_TRANSACTION, ROLLBACK]
         \<and> total_errors (process_batch e op vd start rs) =
             total_errors rs + int (length (current_batch rs vd start))
         \<and> total_processed (process_batch e op vd start rs) = total_processed rs
         \<and> batches_processed (process_batch e op vd start rs) = batches_processed rs
         \<and> current_batch_size (processor (process_batch e op vd start rs)) =
             current_batch_size (processor rs)"
proof -
  let ?batch = "current_batch rs vd start"
  let ?rs1 = "execute BEGIN_TRANSACTION rs"
  let ?rs' = "batch_failed e ?batch ?rs1"
  have t: "try_batch e op ?batch rs = (True, ?rs1)"
    using scope began raised by (simp add: try_batch_def Let_def)
  have step: "process_batch e op vd start rs = ?rs'"
    by (simp add: process_batch_def Let_def t)
  have scope1: "batch_scope ?rs1" using scope by (simp add: batch_scope_def execute_def)
  have "executed ?rs' = executed rs @ [BEGIN_TRANSACTION, ROLLBACK]"
    using batch_failed_fields [of e ?batch ?rs1] scope1 by (simp add: execute_def)
  moreover have "total_errors ?rs' = total_errors rs + int (length ?batch)"
    "total_processed ?rs' = total_processed rs"
    "batches_processed ?rs' = batches_processed rs"
    "current_batch_size (processor ?rs') = current_batch_size (processor rs)"
    using batch_failed_fields [of e ?batch ?rs1] by (simp_all add: execute_def)
  ultimately show ?thesis using step by simp
qed

text \<open>
  Claim C4, as amended. The loader resizes only after a batch that was executed and
  committed without an exception, and only with auto-tuning and monitoring both on (with
  either off, a run ends with the batch size it started with). Take such a batch, turn
  \<open>k\<close> of the loop of \<^verbatim>\<open>process_batches\<close>, in a run that starts within the bounds, with
  a positive minimum size and a threshold that is not negative. The size after the turn
  is computed from the size before it, the throughput the metrics hold after the batch
  and the memory reading: the memory factor is \<open>max(0.5, threshold/used)\<close> when more than
  the threshold is in use and \<open>1\<close> otherwise, so it is never below one half; the
  performance factor is \<open>min(1.5, target/observed)\<close> for a positive throughput below the
  target and \<open>1\<close> otherwise, so it never shrinks the batch; the candidate is the current
  size times the smaller factor, in float arithmetic, truncated to an integer and clamped
  to \<open>[min, max]\<close>; it is adopted only when it differs from the current size by more than
  the float product of the current size and \<open>0.1\<close>, and the current size is kept
  otherwise.
\<close>

theorem resize_rule:
  assumes vd: "validate_batch_data p data operation_type = vd" "vd \<noteq> []"
    and starts: "py_range (int (length vd)) (current_batch_size p) = Inr starts"
    and k: "k < length starts"
    and auto: "auto_tune_enabled (config p)"
    and monitoring: "enable_monitoring p"
    and bounds: "in_bounds p" "0 < min_batch_size (config p)"
    and threshold: "0 \<le> memory_threshold_mb (config p)"
    and rs: "rs = state_at p vd batch_operation env starts k"
    and batch: "batch = current_batch rs vd (starts ! k)"
    and began: "\<not> (batch_scope rs \<and> begin_raises (env k))"
    and finished: "batch_operation batch = Inr result"
    and committed: "\<not> (batch_scope rs \<and> commit_raises (env k))"
  shows "process_batches p data operation_type batch_operation env =
           Inr (batches_loop env batch_operation vd (Suc k) (drop (Suc k) starts)
                  (process_batch (env k) batch_operation vd (starts ! k) rs))
         \<and> current_batch_size (processor (process_batch (env k) batch_operation vd (starts ! k) rs)) =
             tuned_size (config p) (current_batch_size (processor rs))
               (throughput_after (processor rs) (env k) batch result) (memory_at_tune (env k))
         \<and> (\<not> (auto_tune_enabled (config q) \<and> enable_monitoring q)
              \<and> process_batches q data' operation_type' batch_operation' env' = Inr final
            \<longrightarrow> current_batch_size (processor final) = current_batch_size q)"
proof (intro conjI impI)
  show "process_batches p data operation_type batch_operation env =
           Inr (batches_loop env batch_operation vd (Suc k) (drop (Suc k) starts)
                  (process_batch (env k) batch_operation vd (starts ! k) rs))"
    unfolding rs using vd starts k by (rule process_batches_split)
  have cfg: "config (processor rs) = config p"
    and mon: "enable_monitoring (processor rs) = enable_monitoring p"
    unfolding rs by (simp_all add: state_at_keeps)
  have "in_bounds (processor rs)" unfolding rs using bounds(1) by (rule state_at_in_bounds)
  with bounds(2) cfg have nz: "current_batch_size (processor rs) \<noteq> 0"
    by (simp add: in_bounds_def)
  have "current_batch_size (processor (process_batch (env k) batch_operation vd (starts ! k) rs)) =
          tuned_size (config (processor rs)) (current_batch_size (processor rs))
            (throughput_after (processor rs) (env k) (current_batch rs vd (starts ! k)) result)
            (memory_at_tune (env k))"
    using began finished [unfolded batch] committed
  proof (rule committed_batch)
    show "auto_tune_enabled (config (processor rs))" using auto cfg by simp
    show "enable_monitoring (processor rs)" using monitoring mon by simp
    show "current_batch_size (processor rs) \<noteq> 0" by (rule nz)
    show "memory_at_tune (env k) \<noteq> 0 \<or> 0 \<le> memory_threshold_mb (config (processor rs))"
      using threshold cfg by simp
  qed
  then show "current_batch_size
               (processor (process_batch (env k) batch_operation vd (starts ! k) rs)) =
             tuned_size (config p) (current_batch_size (processor rs))
               (throughput_after (processor rs) (env k) batch result) (memory_at_tune (env k))"
    by (simp add: cfg batch)
  show "current_batch_size (processor final) = current_batch_size q"
    if "\<not> (auto_tune_enabled (config q) \<and> enable_monitoring q)
        \<and> process_batches q data' operation_type' batch_operation' env' = Inr final"
    using that process_batches_off by blast
qed

text \<open>The witness is a run of one batch of two records with the threshold at 57 MB and
  100 MB in use: the factor is the float \<open>0.57\<close>, and the new size is
  \<^verbatim>\<open>int(100 * 0.57)\<close>, which is 56. With monitoring off the size stays at 100.\<close>

theorem resize_rule_witness:
  "(case process_batches
           (new_processor (default_config\<lparr>initial_batch_size := 100, memory_threshold_mb := 57\<rparr>) True)
           [Dict [''id'' \<mapsto> True, ''subreddit'' \<mapsto> True],
            Dict [''id'' \<mapsto> True, ''subreddit'' \<mapsto> True]] ''posts''
           (\<lambda>b. Inr \<lparr>inserted = int (length b), updated = 0, errors = 0\<rparr>)
           (\<lambda>k. \<lparr>begin_raises = False, commit_raises = False, rollback_raises = False,
                 elapsed_done = 1, elapsed_failed = 1, memory_at_update = 100,
                 memory_at_tune = 100, memory_at_failure = 100\<rparr>) of
      Inl err \<Rightarrow> False
    | Inr final \<Rightarrow> current_batch_size (processor final) = 56)
   \<and> (case process_batches
           (new_processor (default_config\<lparr>initial_batch_size := 100, memory_threshold_mb := 57\<rparr>) False)
           [Dict [''id'' \<mapsto> True, ''subreddit'' \<mapsto> True],
            Dict [''id'' \<mapsto> True, ''subreddit'' \<mapsto> True]] ''posts''
           (\<lambda>b. Inr \<lparr>inserted = int (length b), updated = 0, errors = 0\<rparr>)
           (\<lambda>k. \<lparr>begin_raises = False, commit_raises = False, rollback_raises = False,
                 elapsed_done = 1, elapsed_failed = 1, memory_at_update = 100,
                 memory_at_tune = 100, memory_at_failure = 100\<rparr>) of
      Inl err \<Rightarrow> False
    | Inr final \<Rightarrow> current_batch_size (processor final) = 100)"
proof -
  let ?cfg = "default_config\<lparr>initial_batch_size := 100, memory_threshold_mb := 57\<rparr>"
  let ?p = "new_processor ?cfg True"
  let ?q = "new_processor ?cfg False"
  let ?d = "[Dict [''id'' \<mapsto> True, ''subreddit'' \<mapsto> True],
             Dict [''id'' \<mapsto> True, ''subreddit'' \<mapsto> True]]"
  let ?op = "\<lambda>b::item list.
               (Inr \<lparr>inserted = int (length b), updated = 0, errors = 0\<rparr> :: batch_error + op_result)"
  let ?env = "\<lambda>k::nat. \<lparr>begin_raises = False, commit_raises = False, rollback_raises = False,
                 elapsed_done = 1, elapsed_failed = 1, memory_at_update = 100,
                 memory_at_tune = 100, memory_at_failure = 100\<rparr>"
  let ?rs = "start_state ?p"
  let ?batch = "current_batch ?rs ?d 0"
  let ?result = "\<lparr>inserted = int (length ?batch), updated = 0, errors = 0\<rparr>"
  have vd: "validate_batch_data ?p ?d ''posts'' = ?d" "?d \<noteq> []"
    by (simp_all add: validate_batch_data_def required_fields_def new_processor_def
          default_config_def)
  have starts: "py_range (int (length ?d)) (current_batch_size ?p) = Inr [0]"
    by (simp add: py_range_def new_processor_def default_config_def)
  have k: "0 < length [0::int]" by simp
  have auto: "auto_tune_enabled (config ?p)" and monitoring: "enable_monitoring ?p"
    and bounds: "in_bounds ?p" "0 < min_batch_size (config ?p)"
    and threshold: "0 \<le> memory_threshold_mb (config ?p)"
    by (simp_all add: new_processor_def default_config_def in_bounds_def)
  have rs: "?rs = state_at ?p ?d ?op ?env [0] 0" by (simp add: state_at_def)
  have batch: "?batch = current_batch ?rs ?d ([0] ! 0)" by simp
  have began: "\<not> (batch_scope ?rs \<and> begin_raises (?env 0))"
    and committed: "\<not> (batch_scope ?rs \<and> commit_raises (?env 0))"
    by simp_all
  have finished: "?op ?batch = Inr ?result" by simp
  have len: "length ?batch = 2"
    by (simp add: current_batch_def py_slice_def slice_bound_def start_state_def
          new_processor_def default_config_def Let_def)
  have speed: "throughput_after (processor ?rs) (?env 0) ?batch ?result = 2"
  proof -
    have "records_per_second (metrics (update_performance_metrics ?p 2 1 2 True 100)) = 2"
      by code_simp
    moreover have "processor ?rs = ?p" by (simp add: start_state_def)
    ultimately show ?thesis by (simp add: throughput_after_def len)
  qed
  have size: "tuned_size ?cfg 100 2 100 = 56" by code_simp
  have cfg: "config ?p = ?cfg" and cur: "current_batch_size (processor ?rs) = 100"
    by (simp_all add: new_processor_def start_state_def default_config_def)
  have untuned: "\<not> (auto_tune_enabled (config ?q) \<and> enable_monitoring ?q)"
    by (simp add: new_processor_def)
  from resize_rule
    [where p = ?p and data = ?d and operation_type = "''posts''" and vd = ?d
       and starts = "[0]" and k = 0 and rs = ?rs and batch_operation = ?op and env = ?env
       and batch = ?batch and result = ?result
       and q = ?q and data' = ?d and operation_type' = "''posts''"
       and batch_operation' = ?op and env' = ?env,
     OF vd starts k auto monitoring bounds threshold rs batch began finished committed]
  have run: "process_batches ?p ?d ''posts'' ?op ?env =
               Inr (process_batch (?env 0) ?op ?d 0 ?rs)"
    and tuned: "current_batch_size (processor (process_batch (?env 0) ?op ?d 0 ?rs)) =
                  tuned_size (config ?p) (current_batch_size (processor ?rs))
                    (throughput_after (processor ?rs) (?env 0) ?batch ?result)
                    (memory_at_tune (?env 0))"
    and off: "\<And>final. process_batches ?q ?d ''posts'' ?op ?env = Inr final \<Longrightarrow>
                current_batch_size (processor final) = current_batch_size ?q"
    using untuned by simp_all
  have "current_batch_size (processor (process_batch (?env 0) ?op ?d 0 ?rs)) = 56"
    using size by (simp only: tuned speed cfg cur) simp
  with run have first: "case process_batches ?p ?d ''posts'' ?op ?env of
      Inl err \<Rightarrow> False
    | Inr final \<Rightarrow> current_batch_size (processor final) = 56"
    by simp
  have "current_batch_size ?q \<noteq> 0" by (simp add: new_processor_def default_config_def)
  then obtain final where final: "process_batches ?q ?d ''posts'' ?op ?env = Inr final"
    using process_batches_returns by blast
  from off [OF final] have "current_batch_size (processor final) = 100"
    by (simp add: new_processor_def default_config_def)
  with final have second: "case process_batches ?q ?d ''posts'' ?op ?env of
      Inl err \<Rightarrow> False
    | Inr final \<Rightarrow> current_batch_size (processor final) = 100"
    by simp
  from first second show ?thesis by blast
qed

text \<open>
  Claim C4 as stated fails: with the default configuration (threshold 100, target 1000,
  current size 1000), an observed throughput of 1000 and 400 MB in use, the rule of the
  specification gives \<open>1000 * min(1, 100/400) = 250\<close>, and the code returns 500.
\<close>

theorem resize_rule_counterexample:
  "map_sum id fst (calculate_optimal_batch_size (new_processor default_config True) 1000 400)
     = Inr 500
   \<and> spec_batch_size default_config 1000 1000 400 = 250"
  by code_simp

text \<open>
  Claim C5. A processor is created within the bounds exactly when its initial batch size
  lies in \<open>[min_batch_size, max_batch_size]\<close>; from a state within the bounds, the loop
  over any list of batches, under any readings of the clock and of the memory probe and
  any outcome of the batch operation, ends within the bounds; and so does
  \<^verbatim>\<open>process_batches\<close> when it returns.
\<close>

theorem batch_size_stays_within_bounds:
  "(in_bounds (new_processor cfg monitoring) \<longleftrightarrow>
      min_batch_size cfg \<le> initial_batch_size cfg \<and> initial_batch_size cfg \<le> max_batch_size cfg)
   \<and> (in_bounds (processor rs) \<longrightarrow>
        in_bounds (processor (batches_loop env batch_operation data k starts rs)))
   \<and> (in_bounds p \<longrightarrow>
        (case process_batches p data operation_type batch_operation env of
           Inl err \<Rightarrow> True
         | Inr rs' \<Rightarrow> in_bounds (processor rs')))"
proof (intro conjI impI)
  show "in_bounds (new_processor cfg monitoring) \<longleftrightarrow>
      min_batch_size cfg \<le> initial_batch_size cfg \<and> initial_batch_size cfg \<le> max_batch_size cfg"
    by (simp add: in_bounds_def new_processor_def)
  show "in_bounds (processor (batches_loop env batch_operation data k starts rs))"
    if "in_bounds (processor rs)"
    using that by (rule batches_loop_in_bounds)
  show "case process_batches p data operation_type batch_operation env of
           Inl err \<Rightarrow> True
         | Inr rs' \<Rightarrow> in_bounds (processor rs')"
    if "in_bounds p"
  proof -
    have "in_bounds (processor (start_state p))" using that by (simp add: start_state_def)
    then show ?thesis
      by (auto simp: process_batches_def Let_def batches_loop_in_bounds split: sum.splits)
  qed
qed

theorem batch_size_stays_within_bounds_witness:
  "in_bounds (processor
     (batches_loop
        (\<lambda>k. \<lparr>begin_raises = False, commit_raises = False, rollback_raises = False,
              elapsed_done = 0, elapsed_failed = 0, memory_at_update = 1000000,
              memory_at_tune = 1000000, memory_at_failure = 1000000\<rparr>)
        (\<lambda>b. Inr \<lparr>inserted = int (length b), updated = 0, errors = 0\<rparr>)
        [Dict [''id'' \<mapsto> True, ''subreddit'' \<mapsto> True], NotADict] 0 [0, 1000]
        (start_state (new_processor default_config True))))
   \<and> (case process_batches (new_processor default_config True)
              [Dict [''id'' \<mapsto> True, ''subreddit'' \<mapsto> True], NotADict] ''posts''
              (\<lambda>b. Inr \<lparr>inserted = int (length b), updated = 0, errors = 0\<rparr>)
              (\<lambda>k. \<lparr>begin_raises = False, commit_raises = False, rollback_raises = False,
                    elapsed_done = 0, elapsed_failed = 0, memory_at_update = 1000000,
                    memory_at_tune = 1000000, memory_at_failure = 1000000\<rparr>) of
           Inl err \<Rightarrow> True
         | Inr rs' \<Rightarrow> in_bounds (processor rs'))"
proof -
  have "min_batch_size default_config \<le> initial_batch_size default_config
        \<and> initial_batch_size default_config \<le> max_batch_size default_config"
    by (simp add: default_config_def)
  then have p: "in_bounds (new_processor default_config True)"
    using batch_size_stays_within_bounds by blast
  then have "in_bounds (processor (start_state (new_processor default_config True)))"
    by (simp add: start_state_def)
  with p show ?thesis
    using batch_size_stays_within_bounds by blast
qed

text \<open>Statements sent to the connection are never taken back, and the error total never
  goes down when the batch operation reports no negative error count.\<close>

lemma auto_tune_counters:
  assumes "auto_tune e rs = (raised, rs')"
  shows "total_errors rs' = total_errors rs \<and> executed rs' = executed rs"
proof (cases "auto_tune_enabled (config (processor rs)) \<and> enable_monitoring (processor rs)")
  case False
  with assms show ?thesis by (auto simp: auto_tune_def)
next
  case True
  show ?thesis
  proof (cases "calculate_optimal_batch_size (processor rs)
                  (records_per_second (metrics (processor rs))) (memory_at_tune e)")
    case (Inl err)
    with True assms show ?thesis by (auto simp: auto_tune_def)
  next
    case (Inr r)
    obtain n p' where r: "r = (n, p')" by (cases r)
    with True Inr assms show ?thesis by (auto simp: auto_tune_def)
  qed
qed

lemma record_result_counters:
  "total_errors (record_result e result batch rs) = total_errors rs + errors result
   \<and> executed (record_result e result batch rs) = executed rs"
  by (simp add: record_result_def Let_def)

lemma try_batch_log:
  assumes run: "try_batch e op batch rs = (raised, rs')"
  shows "\<exists>more. executed rs' = executed rs @ more"
proof (cases "batch_scope rs \<and> begin_raises e")
  case True
  with run show ?thesis by (auto simp: try_batch_def Let_def execute_def)
next
  case nb: False
  show ?thesis
  proof (cases "op batch")
    case (Inl err)
    with nb run show ?thesis
      by (auto simp: try_batch_def Let_def execute_def split: if_splits)
  next
    case (Inr result)
    show ?thesis
    proof (cases "batch_scope rs \<and> commit_raises e")
      case True
      with nb Inr run show ?thesis
        by (auto simp: try_batch_def Let_def execute_def split: if_splits)
    next
      case False
      let ?rs2 = "if batch_scope rs then execute COMMIT (execute BEGIN_TRANSACTION rs) else rs"
      from nb Inr False run
      have t: "auto_tune e (record_result e result batch ?rs2) = (raised, rs')"
        by (auto simp: try_batch_def Let_def split: if_splits)
      have "\<exists>more. executed ?rs2 = executed rs @ more"
        by (simp add: execute_def)
      with auto_tune_counters [OF t] show ?thesis
        by (simp add: record_result_counters)
    qed
  qed
qed

lemma process_batch_log:
  "\<exists>more. executed (process_batch e op data start rs) = executed rs @ more"
proof -
  obtain raised rs' where t: "try_batch e op (current_batch rs data start) rs = (raised, rs')"
    by (cases "try_batch e op (current_batch rs data start) rs") auto
  from try_batch_log [OF t]
  obtain more where ex: "executed rs' = executed rs @ more" by blast
  show ?thesis
  proof (cases raised)
    case False
    with t ex show ?thesis by (simp add: process_batch_def Let_def)
  next
    case True
    let ?batch = "current_batch rs data start"
    have "\<exists>more. executed (batch_failed e ?batch rs') = executed rs' @ more"
      using batch_failed_fields [of e ?batch rs'] by simp
    with True t ex show ?thesis by (auto simp: process_batch_def Let_def)
  qed
qed

lemma batches_loop_log:
  "\<exists>more. executed (batches_loop env op data k starts rs) = executed rs @ more"
proof (induction starts arbitrary: k rs)
  case Nil
  then show ?case by simp
next
  case (Cons s starts)
  let ?rs = "process_batch (env k) op data s rs"
  from process_batch_log [of "env k" op data s rs]
  obtain m1 where a: "executed ?rs = executed rs @ m1" by blast
  from Cons.IH [of "Suc k" ?rs]
  obtain m2 where b: "executed (batches_loop env op data (Suc k) starts ?rs) = executed ?rs @ m2"
    by blast
  from a b show ?case by simp
qed

lemma try_batch_errors:
  assumes run: "try_batch e op batch rs = (raised, rs')"
    and nonneg: "\<forall>b r. op b = Inr r \<longrightarrow> 0 \<le> errors r"
  shows "total_errors rs \<le> total_errors rs'"
proof (cases "batch_scope rs \<and> begin_raises e")
  case True
  with run show ?thesis by (auto simp: try_batch_def Let_def execute_def)
next
  case nb: False
  show ?thesis
  proof (cases "op batch")
    case (Inl err)
    with nb run show ?thesis
      by (auto simp: try_batch_def Let_def execute_def split: if_splits)
  next
    case (Inr result)
    with nonneg have pos: "0 \<le> errors result" by blast
    show ?thesis
    proof (cases "batch_scope rs \<and> commit_raises e")
      case True
      with nb Inr run show ?thesis
        by (auto simp: try_batch_def Let_def execute_def split: if_splits)
    next
      case False
      let ?rs2 = "if batch_scope rs then execute COMMIT (execute BEGIN_TRANSACTION rs) else rs"
      from nb Inr False run
      have t: "auto_tune e (record_result e result batch ?rs2) = (raised, rs')"
        by (auto simp: try_batch_def Let_def split: if_splits)
      have "total_errors ?rs2 = total_errors rs" by (simp add: execute_def)
      with auto_tune_counters [OF t] pos show ?thesis
        by (simp add: record_result_counters)
    qed
  qed
qed

lemma process_batch_errors:
  assumes nonneg: "\<forall>b r. op b = Inr r \<longrightarrow> 0 \<le> errors r"
  shows "total_errors rs \<le> total_errors (process_batch e op data start rs)"
proof -
  obtain raised rs' where t: "try_batch e op (current_batch rs data start) rs = (raised, rs')"
    by (cases "try_batch e op (current_batch rs data start) rs") auto
  from try_batch_errors [OF t nonneg] have le: "total_errors rs \<le> total_errors rs'" .
  show ?thesis
  proof (cases raised)
    case False
    with t le show ?thesis by (simp add: process_batch_def Let_def)
  next
    case True
    let ?batch = "current_batch rs data start"
    have "total_errors rs' \<le> total_errors (batch_failed e ?batch rs')"
      using batch_failed_fields [of e ?batch rs'] by simp
    with True t le show ?thesis by (simp add: process_batch_def Let_def)
  qed
qed

lemma batches_loop_errors:
  assumes nonneg: "\<forall>b r. op b = Inr r \<longrightarrow> 0 \<le> errors r"
  shows "total_errors rs \<le> total_errors (batches_loop env op data k starts rs)"
proof (induction starts arbitrary: k rs)
  case Nil
  then show ?case by simp
next
  case (Cons s starts)
  let ?rs = "process_batch (env k) op data s rs"
  have "total_errors rs \<le> total_errors ?rs" using nonneg by (rule process_batch_errors)
  also have "\<dots> \<le> total_errors (batches_loop env op data (Suc k) starts ?rs)"
    by (rule Cons.IH)
  finally show ?case by simp
qed

text \<open>
  Claim C6. Take turn \<open>k\<close> of the loop of \<^verbatim>\<open>process_batches\<close>, under batch transaction
  scope, and let the batch operation raise for its batch. The turn sends \<^verbatim>\<open>ROLLBACK\<close>
  after the \<^verbatim>\<open>BEGIN TRANSACTION\<close> of that batch, adds the number of records of the batch
  to the error total, leaves the processed total, the batch count and the batch size as
  they were, and \<^verbatim>\<open>process_batches\<close> returns what the loop over the remaining batches
  makes of that state. In what it returns the two statements are still there, and, when
  the batch operation never reports a negative error count, the error total holds the
  records of the failed batch on top of the errors counted before it.
\<close>

theorem failed_batch_rolled_back_and_counted:
  assumes vd: "validate_batch_data p data operation_type = vd" "vd \<noteq> []"
    and starts: "py_range (int (length vd)) (current_batch_size p) = Inr starts"
    and k: "k < length starts"
    and scope: "transaction_scope (config p) = ''batch''"
    and rs: "rs = state_at p vd batch_operation env starts k"
    and batch: "batch = current_batch rs vd (starts ! k)"
    and began: "\<not> begin_raises (env k)"
    and raised: "batch_operation batch = Inl err"
    and rs': "rs' = process_batch (env k) batch_operation vd (starts ! k) rs"
    and final: "final = batches_loop env batch_operation vd (Suc k) (drop (Suc k) starts) rs'"
  shows "process_batches p data operation_type batch_operation env = Inr final
         \<and> executed rs' = executed rs @ [BEGIN_TRANSACTION, ROLLBACK]
         \<and> total_errors rs' = total_errors rs + int (length batch)
         \<and> total_processed rs' = total_processed rs
         \<and> batches_processed rs' = batches_processed rs
         \<and> current_batch_size (processor rs') = current_batch_size (processor rs)
         \<and> (\<exists>before after.
               executed final = before @ [BEGIN_TRANSACTION, ROLLBACK] @ after)
         \<and> ((\<forall>b r. batch_operation b = Inr r \<longrightarrow> 0 \<le> errors r) \<longrightarrow>
               0 \<le> total_errors rs
               \<and> total_errors rs + int (length batch) \<le> total_errors final)"
proof -
  have run: "process_batches p data operation_type batch_operation env = Inr final"
    unfolding final rs' rs using vd starts k by (rule process_batches_split)
  have "config (processor rs) = config p" unfolding rs by (simp add: state_at_keeps)
  with scope have "batch_scope rs" by (simp add: batch_scope_def)
  then have turn: "executed rs' = executed rs @ [BEGIN_TRANSACTION, ROLLBACK]
         \<and> total_errors rs' = total_errors rs + int (length batch)
         \<and> total_processed rs' = total_processed rs
         \<and> batches_processed rs' = batches_processed rs
         \<and> current_batch_size (processor rs') = current_batch_size (processor rs)"
    unfolding rs' batch using began raised [unfolded batch] by (rule failed_batch)
  have log: "\<exists>before after. executed final = before @ [BEGIN_TRANSACTION, ROLLBACK] @ after"
  proof -
    have "\<exists>more. executed (batches_loop env batch_operation vd (Suc k) (drop (Suc k) starts) rs')
                   = executed rs' @ more"
      by (rule batches_loop_log)
    then obtain more where "executed final = executed rs' @ more" unfolding final by blast
    with turn have "executed final = executed rs @ [BEGIN_TRANSACTION, ROLLBACK] @ more"
      by simp
    then show ?thesis by blast
  qed
  have totals: "0 \<le> total_errors rs \<and> total_errors rs + int (length batch) \<le> total_errors final"
    if nonneg: "\<forall>b r. batch_operation b = Inr r \<longrightarrow> 0 \<le> errors r"
  proof -
    from batches_loop_errors [OF nonneg, of "start_state p" env vd 0 "take k starts"]
    have "0 \<le> total_errors rs" unfolding rs state_at_def by (simp add: start_state_def)
    moreover from batches_loop_errors [OF nonneg, of rs' env vd "Suc k" "drop (Suc k) starts"]
    have "total_errors rs' \<le> total_errors final" unfolding final .
    ultimately show ?thesis using turn by simp
  qed
  from run turn log totals show ?thesis by blast
qed

text \<open>The witness is a run over three records in batches of two: the operation raises
  for the first batch and succeeds for the second. The returned totals count the two
  records of the first batch as errors and the second batch as processed.\<close>

theorem failed_batch_rolled_back_and_counted_witness:
  "(case process_batches (new_processor (default_config\<lparr>initial_batch_size := 2\<rparr>) False)
           [Dict [''id'' \<mapsto> True, ''subreddit'' \<mapsto> True],
            Dict [''id'' \<mapsto> True, ''subreddit'' \<mapsto> True],
            Dict [''id'' \<mapsto> True, ''subreddit'' \<mapsto> True]] ''posts''
           (\<lambda>b. if length b = 2 then Inl OperationFailed
                 else Inr \<lparr>inserted = int (length b), updated = 0, errors = 0\<rparr>)
           (\<lambda>k. \<lparr>begin_raises = False, commit_raises = False, rollback_raises = False,
                 elapsed_done = 1, elapsed_failed = 1, memory_at_update = 50,
                 memory_at_tune = 50, memory_at_failure = 50\<rparr>) of
      Inl err \<Rightarrow> False
    | Inr final \<Rightarrow>
        executed final = [BEGIN_TRANSACTION, ROLLBACK, BEGIN_TRANSACTION, COMMIT]
        \<and> total_errors final = 2 \<and> total_processed final = 1 \<and> batches_processed final = 1)"
proof -
  let ?p = "new_processor (default_config\<lparr>initial_batch_size := 2\<rparr>) False"
  let ?d = "[Dict [''id'' \<mapsto> True, ''subreddit'' \<mapsto> True],
             Dict [''id'' \<mapsto> True, ''subreddit'' \<mapsto> True],
             Dict [''id'' \<mapsto> True, ''subreddit'' \<mapsto> True]]"
  let ?op = "\<lambda>b::item list.
               if length b = 2 then Inl OperationFailed
               else (Inr \<lparr>inserted = int (length b), updated = 0, errors = 0\<rparr>
                     :: batch_error + op_result)"
  let ?env = "\<lambda>k::nat. \<lparr>begin_raises = False, commit_raises = False, rollback_raises = False,
                 elapsed_done = 1, elapsed_failed = 1, memory_at_update = 50,
                 memory_at_tune = 50, memory_at_failure = 50\<rparr>"
  let ?rs = "start_state ?p"
  let ?batch = "current_batch ?rs ?d 0"
  let ?rs' = "process_batch (?env 0) ?op ?d 0 ?rs"
  have vd: "validate_batch_data ?p ?d ''posts'' = ?d" "?d \<noteq> []"
    by (simp_all add: validate_batch_data_def required_fields_def new_processor_def
          default_config_def)
  have starts: "py_range (int (length ?d)) (current_batch_size ?p) = Inr [0, 2]"
    by (simp add: py_range_def new_processor_def default_config_def upt_rec)
  have k: "0 < length [0, 2::int]" by simp
  have scope: "transaction_scope (config ?p) = ''batch''"
    by (simp add: new_processor_def default_config_def)
  have began: "\<not> begin_raises (?env 0)" by simp
  have rs: "?rs = state_at ?p ?d ?op ?env [0, 2] 0" by (simp add: state_at_def)
  have batch: "?batch = current_batch ?rs ?d ([0, 2] ! 0)" by simp
  have rs': "?rs' = process_batch (?env 0) ?op ?d ([0, 2] ! 0) ?rs" by simp
  have len: "length ?batch = 2"
    by (simp add: current_batch_def py_slice_def slice_bound_def start_state_def
          new_processor_def default_config_def Let_def)
  then have raised: "?op ?batch = Inl OperationFailed" by simp
  have nonneg: "\<forall>b r. ?op b = Inr r \<longrightarrow> 0 \<le> errors r" by auto
  from failed_batch_rolled_back_and_counted
    [where p = ?p and data = ?d and operation_type = "''posts''" and vd = ?d
       and starts = "[0, 2]" and k = 0 and rs = ?rs and batch_operation = ?op and env = ?env
       and batch = ?batch and err = OperationFailed and rs' = ?rs'
       and final = "batches_loop ?env ?op ?d (Suc 0) (drop (Suc 0) [0, 2]) ?rs'",
     OF vd starts k scope rs batch began raised rs' refl]
  have run: "process_batches ?p ?d ''posts'' ?op ?env =
               Inr (batches_loop ?env ?op ?d (Suc 0) [2]
                      (process_batch (?env 0) ?op ?d 0 (start_state ?p)))"
    and counted: "total_errors ?rs + int (length ?batch)
                    \<le> total_errors (batches_loop ?env ?op ?d (Suc 0) [2]
                                       (process_batch (?env 0) ?op ?d 0 (start_state ?p)))"
    using nonneg by simp_all
  have "executed (batches_loop ?env ?op ?d (Suc 0) [2]
                    (process_batch (?env 0) ?op ?d 0 (start_state ?p))) =
          [BEGIN_TRANSACTION, ROLLBACK, BEGIN_TRANSACTION, COMMIT]
        \<and> total_errors (batches_loop ?env ?op ?d (Suc 0) [2]
                    (process_batch (?env 0) ?op ?d 0 (start_state ?p))) = 2
        \<and> total_processed (batches_loop ?env ?op ?d (Suc 0) [2]
                    (process_batch (?env 0) ?op ?d 0 (start_state ?p))) = 1
        \<and> batches_processed (batches_loop ?env ?op ?d (Suc 0) [2]
                    (process_batch (?env 0) ?op ?d 0 (start_state ?p))) = 1"
    by (simp add: process_batch_def current_batch_def py_slice_def slice_bound_def
          try_batch_def batch_scope_def execute_def batch_failed_def record_result_def
          auto_tune_def update_performance_metrics_def start_state_def new_processor_def
          default_config_def Let_def)
  with run show ?thesis by simp
qed

section \<open>Streaming the rows of a dump\<close>

text \<open>\<^verbatim>\<open>COLUMN_MAPS\<close>: the two known tables and their columns.\<close>

definition COLUMN_MAPS :: "string \<rightharpoonup> string list" where
  "COLUMN_MAPS = map_of
     [(''submission'',
       [''submissionid'', ''archiveDate'', ''commentCount'', ''content'', ''creationDate'',
        ''domain'', ''downCount'', ''formattedContent'', ''isAdult'', ''isAnonymized'',
        ''isDeleted'', ''lastEditDate'', ''subverse'', ''sum'', ''thumbnail'', ''title'',
        ''type'', ''upCount'', ''url'', ''userName'', ''views'', ''archivedLink'',
        ''archivedDomain'', ''deletedMeaning'', ''fetchCount'', ''lastFetched'', ''flags'']),
      (''comment'',
       [''commentid'', ''content'', ''creationDate'', ''downCount'', ''formattedContent'',
        ''isAnonymized'', ''isCollapsed'', ''isDeleted'', ''isDistinguished'', ''isOwner'',
        ''isSaved'', ''isSubmitter'', ''lastEditDate'', ''parentid'', ''submissionid'',
        ''subverse'', ''sum'', ''upCount'', ''userName'', ''vote'', ''fetchCount'',
        ''lastFetched''])]"

datatype parser_error = UnknownTable | AttributeError | ReadError

text \<open>\<^verbatim>\<open>list.index\<close>, with \<open>None\<close> where the source tests membership first.\<close>

fun index_of :: "'a list \<Rightarrow> 'a \<Rightarrow> nat option" where
  "index_of [] x = None"
| "index_of (y # ys) x = (if y = x then Some 0 else map_option Suc (index_of ys x))"

text \<open>Truth value and \<^verbatim>\<open>str()\<close> of a field. Both need the floating-point number for a
  float, which is not modelled: the two operations on floats are parameters.\<close>

record float_ops =
  float_nonzero :: "string \<Rightarrow> bool"
  float_str :: "string \<Rightarrow> string"

function digits_of :: "nat \<Rightarrow> string" where
  "digits_of n =
     (if n < 10 then [''0123456789'' ! n]
      else digits_of (n div 10) @ [''0123456789'' ! (n mod 10)])"
  by pat_completeness auto
termination
  by (relation "measure id") auto

declare digits_of.simps [simp del]

fun py_truthy :: "float_ops \<Rightarrow> sql_value \<Rightarrow> bool" where
  "py_truthy fl SqlNull = False"
| "py_truthy fl (SqlInt n) = (n \<noteq> 0)"
| "py_truthy fl (SqlFloat f) = float_nonzero fl f"
| "py_truthy fl (SqlText s) = (s \<noteq> [])"

fun py_str :: "float_ops \<Rightarrow> sql_value \<Rightarrow> string" where
  "py_str fl SqlNull = ''None''"
| "py_str fl (SqlInt n) = (if n < 0 then ''-'' @ digits_of (nat (- n)) else digits_of (nat n))"
| "py_str fl (SqlFloat f) = float_str fl f"
| "py_str fl (SqlText s) = s"

text \<open>\<^verbatim>\<open>_quick_extract_field\<close>. Where it has found the field it calls
  \<^verbatim>\<open>self._convert_value\<close>, a method the class does not define: the call raises
  \<^verbatim>\<open>AttributeError\<close>. The arguments are \<^verbatim>\<open>text[i:]\<close>, \<^verbatim>\<open>field_idx\<close>, \<^verbatim>\<open>field_count\<close>,
  \<^verbatim>\<open>current\<close>, \<^verbatim>\<open>in_string\<close> and \<^verbatim>\<open>paren_depth\<close>.\<close>

fun quick_loop ::
  "string \<Rightarrow> nat \<Rightarrow> nat \<Rightarrow> string \<Rightarrow> bool \<Rightarrow> nat \<Rightarrow> parser_error + sql_value option" where
  "quick_loop [] field_idx field_count cur in_string depth = Inr None"
| "quick_loop (c # cs) field_idx field_count cur in_string depth =
     (let collect = (if field_count = field_idx then cur @ [c] else cur) in
      if \<not> field_count \<le> field_idx then Inr None
      else if c = CHR 0x5C \<and> in_string \<and> cs \<noteq> [] then
        (case cs of
           [] \<Rightarrow> Inr None
         | d # ds \<Rightarrow>
             quick_loop ds field_idx field_count
               (if field_count = field_idx then cur @ [d] else cur) in_string depth)
      else if c = CHR 0x27 then
        (if in_string then
           (case cs of
              [] \<Rightarrow> quick_loop cs field_idx field_count cur False depth
            | d # ds \<Rightarrow>
                if d = CHR 0x27 then
                  quick_loop ds field_idx field_count
                    (if field_count = field_idx then cur @ [CHR 0x27] else cur) in_string depth
                else quick_loop cs field_idx field_count cur False depth)
         else quick_loop cs field_idx field_count cur True depth)
      else if \<not> in_string \<and> c = CHR ''('' then
        quick_loop cs field_idx field_count collect in_string (depth + 1)
      else if \<not> in_string \<and> c = CHR '')'' then
        (if depth = 0 then
           (if field_count = field_idx then Inl AttributeError else Inr None)
         else quick_loop cs field_idx field_count collect in_string (depth - 1))
      else if \<not> in_string \<and> c = CHR '','' \<and> depth = 0 then
        (if field_count = field_idx then Inl AttributeError
         else quick_loop cs field_idx (field_count + 1) [] in_string depth)
      else quick_loop cs field_idx field_count collect in_string depth)"

definition quick_extract_field :: "string \<Rightarrow> nat \<Rightarrow> nat \<Rightarrow> parser_error + sql_value option" where
  "quick_extract_field text start field_idx =
     quick_loop (drop (start + 1) text) field_idx 0 [] False 0"

text \<open>The dump file as the two \<^verbatim>\<open>gzip.open\<close> calls see it: the text lines that can be
  read, and whether reading fails after them. The probe of the first line fails when
  no line can be read before the failure.\<close>

record gz_file =
  file_lines :: "string list"
  file_broken :: bool

type_synonym row = "(string \<times> sql_value) list"

text \<open>The local variables of \<^verbatim>\<open>stream_rows\<close> that change, and the rows yielded so far.\<close>

record stream_state =
  buffer :: string
  in_split_format :: bool
  accumulating_tuple :: bool
  row_count :: nat
  skipped_count :: nat
  error_count :: nat
  yielded :: "row list"

text \<open>What is fixed during a run: the float operations, the columns of the table,
  \<^verbatim>\<open>insert_pattern\<close> (matched without regard to letter case), \<^verbatim>\<open>subverse_idx\<close> and
  \<^verbatim>\<open>filter_lower\<close>.\<close>

record stream_config =
  floats :: float_ops
  columns :: "string list"
  insert_pattern :: string
  subverse_idx :: "nat option"
  filter_lower :: "string list option"

text \<open>\<^verbatim>\<open>filter_lower and subverse_idx >= 0\<close>\<close>

definition filtering :: "stream_config \<Rightarrow> bool" where
  "filtering cfg \<longleftrightarrow>
     (case filter_lower cfg of None \<Rightarrow> False | Some fs \<Rightarrow> fs \<noteq> []) \<and> subverse_idx cfg \<noteq> None"

text \<open>\<^verbatim>\<open>subverse_value and str(subverse_value).lower() not in filter_lower\<close>, on an
  optional value (\<^verbatim>\<open>None\<close> is falsy).\<close>

definition excluded :: "stream_config \<Rightarrow> sql_value option \<Rightarrow> bool" where
  "excluded cfg subverse_value =
     (case subverse_value of
        None \<Rightarrow> False
      | Some v \<Rightarrow>
          py_truthy (floats cfg) v
          \<and> lower (py_str (floats cfg) v) \<notin> set (case filter_lower cfg of None \<Rightarrow> [] | Some fs \<Rightarrow> fs))"

text \<open>The tests that follow a consumed tuple: the first component says whether the
  \<^verbatim>\<open>while\<close> loop is left.\<close>

definition after_tuple :: "stream_state \<Rightarrow> bool \<times> stream_state" where
  "after_tuple st =
     (if strip (buffer st) = [] then (True, st\<lparr>in_split_format := False\<rparr>)
      else if \<not> in_split_format st \<and> startswith (strip (buffer st)) '';'' then (True, st)
      else if in_split_format st then (True, st\<lparr>in_split_format := False\<rparr>)
      else (False, st))"

text \<open>The fast path: whether the quick extraction says the tuple is to be skipped. An
  exception in it is swallowed and the tuple goes to the full parse.\<close>

definition quick_skip :: "stream_config \<Rightarrow> string \<Rightarrow> nat \<Rightarrow> bool" where
  "quick_skip cfg buf paren_start =
     (filtering cfg \<and>
      (case subverse_idx cfg of
         None \<Rightarrow> False
       | Some idx \<Rightarrow>
           (case quick_extract_field buf paren_start idx of
              Inl err \<Rightarrow> False
            | Inr subverse_value \<Rightarrow> excluded cfg subverse_value)))"

text \<open>\<^verbatim>\<open>values[subverse_idx] if subverse_idx < len(values) else None\<close>\<close>

definition subverse_of :: "stream_config \<Rightarrow> sql_value list \<Rightarrow> sql_value option" where
  "subverse_of cfg values =
     (case subverse_idx cfg of
        None \<Rightarrow> None
      | Some idx \<Rightarrow> if idx < length values then Some (values ! idx) else None)"

text \<open>One turn of the \<^verbatim>\<open>while True\<close> loop over the tuples of the buffer. Nothing in the
  second \<^verbatim>\<open>try\<close> raises (\<^verbatim>\<open>_parse_values_tuple\<close> returns on every text), so its handler
  is never entered.\<close>

definition tuple_step :: "stream_config \<Rightarrow> stream_state \<Rightarrow> bool \<times> stream_state" where
  "tuple_step cfg st =
     (case find_str (buffer st) ''('' of
        None \<Rightarrow> (True, st)
      | Some paren_start \<Rightarrow>
          if quick_skip cfg (buffer st) paren_start then
            (let (values, end_pos) = parse_values_tuple (buffer st) paren_start
             in after_tuple (st\<lparr>buffer := drop end_pos (buffer st),
                                 skipped_count := skipped_count st + 1\<rparr>))
          else
            (let (values, end_pos) = parse_values_tuple (buffer st) paren_start in
             if values \<noteq> [] \<and> in_split_format st \<and> length values < length (columns cfg)
             then (True, st\<lparr>accumulating_tuple := True\<rparr>)
             else if values \<noteq> [] \<and> length values = length (columns cfg) then
               (if filtering cfg \<and> excluded cfg (subverse_of cfg values) then
                  after_tuple (st\<lparr>skipped_count := skipped_count st + 1,
                                  buffer := drop end_pos (buffer st)\<rparr>)
                else
                  after_tuple (st\<lparr>row_count := row_count st + 1,
                                  yielded := yielded st @ [zip (columns cfg) values],
                                  buffer := drop end_pos (buffer st),
                                  accumulating_tuple := False,
                                  in_split_format := False\<rparr>))
             else if values \<noteq> [] then
               after_tuple (st\<lparr>error_count := error_count st + 1,
                               buffer := drop end_pos (buffer st)\<rparr>)
             else after_tuple st))"

text \<open>The \<^verbatim>\<open>while True\<close> loop. It can run forever (on a buffer with an opening
  parenthesis and neither comma nor closing parenthesis after it), so it is given fuel;
  the second component says whether the loop was left.\<close>

fun tuples_loop :: "nat \<Rightarrow> stream_config \<Rightarrow> stream_state \<Rightarrow> stream_state \<times> bool" where
  "tuples_loop 0 cfg st = (st, False)"
| "tuples_loop (Suc fuel) cfg st =
     (case tuple_step cfg st of
        (True, st') \<Rightarrow> (st', True)
      | (False, st') \<Rightarrow> tuples_loop fuel cfg st')"

definition is_ddl :: "string \<Rightarrow> bool" where
  "is_ddl stripped \<longleftrightarrow>
     list_ex (startswith (upper stripped)) [''CREATE '', ''DROP '', ''ALTER '', ''SET '', ''USE '']"

text \<open>\<^verbatim>\<open>if buffer:\<close> and the loop over its tuples.\<close>

definition parse_buffer :: "nat \<Rightarrow> stream_config \<Rightarrow> stream_state \<Rightarrow> stream_state \<times> bool" where
  "parse_buffer fuel cfg st = (if buffer st \<noteq> [] then tuples_loop fuel cfg st else (st, True))"

text \<open>The body of \<^verbatim>\<open>for line in f\<close>; the second component is false when the loop over
  the tuples did not end.\<close>

definition process_line :: "nat \<Rightarrow> stream_config \<Rightarrow> string \<Rightarrow> stream_state \<Rightarrow> stream_state \<times> bool" where
  "process_line fuel cfg line st =
     (let stripped = strip line in
      if stripped = [] \<or> startswith stripped ''--'' \<or> startswith stripped ''/*'' then (st, True)
      else if is_ddl stripped then (st, True)
      else if find_str (lower line) (lower (insert_pattern cfg)) \<noteq> None then
        (case find_str (upper line) ''VALUES'' of
           None \<Rightarrow> (st, True)
         | Some values_pos \<Rightarrow>
             parse_buffer fuel cfg
               (st\<lparr>buffer := drop (values_pos + 6) line, in_split_format := False\<rparr>))
      else if startswith stripped ''('' then
        parse_buffer fuel cfg
          (st\<lparr>accumulating_tuple := False, buffer := line, in_split_format := True\<rparr>)
      else if accumulating_tuple st \<or> in_split_format st then
        parse_buffer fuel cfg (st\<lparr>buffer := buffer st @ line\<rparr>)
      else (st, True))"

fun lines_loop :: "nat \<Rightarrow> stream_config \<Rightarrow> string list \<Rightarrow> stream_state \<Rightarrow> stream_state \<times> bool" where
  "lines_loop fuel cfg [] st = (st, True)"
| "lines_loop fuel cfg (line # rest) st =
     (case process_line fuel cfg line st of
        (st', True) \<Rightarrow> lines_loop fuel cfg rest st'
      | (st', False) \<Rightarrow> (st', False))"

datatype outcome = Finished | Raised parser_error | Diverged

definition initial_stream_state :: stream_state where
  "initial_stream_state =
     \<lparr>buffer = [], in_split_format = False, accumulating_tuple = False,
      row_count = 0, skipped_count = 0, error_count = 0, yielded = []\<rparr>"

text \<open>\<^verbatim>\<open>stream_rows\<close>, run to its end: the rows it yields and how the generator ends.\<close>

definition stream_rows ::
  "float_ops \<Rightarrow> nat \<Rightarrow> gz_file \<Rightarrow> string \<Rightarrow> string list option \<Rightarrow> row list \<times> outcome" where
  "stream_rows fl fuel file table_name filter_subverses =
     (case COLUMN_MAPS table_name of
        None \<Rightarrow> ([], Raised UnknownTable)
      | Some cols \<Rightarrow>
          (let cfg = \<lparr>floats = fl, columns = cols,
                      insert_pattern = ''INSERT INTO `'' @ table_name @ ''` VALUES'',
                      subverse_idx = index_of cols ''subverse'',
                      filter_lower =
                        (case filter_subverses of
                           None \<Rightarrow> None
                         | Some fs \<Rightarrow> if fs = [] then None else Some (map lower fs))\<rparr>
           in if file_lines file = [] \<and> file_broken file then ([], Finished)
              else
                (case lines_loop fuel cfg (file_lines file) initial_stream_state of
                   (st, False) \<Rightarrow> (yielded st, Diverged)
                 | (st, True) \<Rightarrow>
                     (yielded st, if file_broken file then Raised ReadError else Finished))))"

text \<open>A row passes the allow-list when its community value is falsy or its lowered string
  form is in the lowered list.\<close>

definition row_passes :: "stream_config \<Rightarrow> row \<Rightarrow> bool" where
  "row_passes cfg r =
     (case map_of r ''subverse'' of None \<Rightarrow> False | Some v \<Rightarrow> \<not> excluded cfg (Some v))"


definition well_formed :: "stream_config \<Rightarrow> bool" where
  "well_formed cfg \<longleftrightarrow>
     filtering cfg \<and> subverse_idx cfg = index_of (columns cfg) ''subverse''"


text \<open>Inputs for the examples: float operations, and dumps of the comment table.\<close>

definition plain_floats :: float_ops where
  "plain_floats = \<lparr>float_nonzero = (\<lambda>f. True), float_str = (\<lambda>f. f)\<rparr>"

definition null_community_dump :: gz_file where
  "null_community_dump =
     \<lparr>file_lines =
        [''INSERT INTO `comment` VALUES (1,'a','b',0,'c',0,0,0,0,0,0,0,NULL,0,7,NULL,1,1,'u',0,4,'d');''],
      file_broken = False\<rparr>"

definition todo_community_dump :: gz_file where
  "todo_community_dump =
     \<lparr>file_lines =
        [''INSERT INTO `comment` VALUES (1,'a','b',0,'c',0,0,0,0,0,0,0,NULL,0,7,'TODO',1,1,'u',0,4,'d'),(2,'a','b',0,'c',0,0,0,0,0,0,0,NULL,0,7,'other',1,1,'u',0,4,'d');''],
      file_broken = False\<rparr>"

text \<open>A dump whose first row has a community name that starts with a capital E acute
  (code point \<open>0xC9\<close>), and that row.\<close>

definition ecole :: string where
  "ecole = CHR 0xC9 # ''cole''"

definition ecole_community_dump :: gz_file where
  "ecole_community_dump =
     \<lparr>file_lines =
        [''INSERT INTO `comment` VALUES (1,'a','b',0,'c',0,0,0,0,0,0,0,NULL,0,7,'' @ [CHR 0x27]
         @ ecole @ [CHR 0x27]
         @ '',1,1,'u',0,4,'d'),(2,'a','b',0,'c',0,0,0,0,0,0,0,NULL,0,7,'other',1,1,'u',0,4,'d');''],
      file_broken = False\<rparr>"

definition ecole_row :: row where
  "ecole_row =
    [(''commentid'', SqlInt 1), (''content'', SqlText ''a''), (''creationDate'', SqlText ''b''),
     (''downCount'', SqlInt 0), (''formattedContent'', SqlText ''c''), (''isAnonymized'', SqlInt 0),
     (''isCollapsed'', SqlInt 0), (''isDeleted'', SqlInt 0), (''isDistinguished'', SqlInt 0),
     (''isOwner'', SqlInt 0), (''isSaved'', SqlInt 0), (''isSubmitter'', SqlInt 0),
     (''lastEditDate'', SqlNull), (''parentid'', SqlInt 0), (''submissionid'', SqlInt 7),
     (''subverse'', SqlText ecole), (''sum'', SqlInt 1), (''upCount'', SqlInt 1),
     (''userName'', SqlText ''u''), (''vote'', SqlInt 0), (''fetchCount'', SqlInt 4),
     (''lastFetched'', SqlText ''d'')]"


subsection \<open>Properties of the row stream\<close>

lemma index_of_less: "index_of xs x = Some i \<Longrightarrow> i < length xs"
  by (induction xs arbitrary: i) (auto split: if_splits)

lemma map_of_zip_index:
  "index_of ks k = Some i \<Longrightarrow> i < length vs \<Longrightarrow> map_of (zip ks vs) k = Some (vs ! i)"
proof (induction ks arbitrary: i vs)
  case Nil
  then show ?case by simp
next
  case (Cons a ks)
  from Cons.prems(2) obtain v vs' where vs: "vs = v # vs'" by (cases vs) auto
  show ?case
  proof (cases "a = k")
    case True
    with Cons.prems vs show ?thesis by simp
  next
    case False
    with Cons.prems(1) obtain j where j: "index_of ks k = Some j" "i = Suc j" by auto
    with Cons.prems(2) vs have "j < length vs'" by simp
    with Cons.IH [OF j(1)] have "map_of (zip ks vs') k = Some (vs' ! j)" by simp
    with False vs j show ?thesis by simp
  qed
qed

lemma after_tuple_yielded: "yielded (snd (after_tuple st)) = yielded st"
  by (simp add: after_tuple_def)

lemma after_tuple_yielded_eq: "after_tuple st = (b, st') \<Longrightarrow> yielded st' = yielded st"
  using after_tuple_yielded [of st] by simp

lemma tuple_step_yielded:
  assumes "tuple_step cfg st = (b, st')"
  shows "yielded st' = yielded st
         \<or> (\<exists>values. yielded st' = yielded st @ [zip (columns cfg) values]
              \<and> length values = length (columns cfg)
              \<and> \<not> (filtering cfg \<and> excluded cfg (subverse_of cfg values)))"
proof (cases "find_str (buffer st) ''(''")
  case None
  with assms show ?thesis by (simp add: tuple_step_def)
next
  case (Some paren_start)
  obtain vals end_pos where p: "parse_values_tuple (buffer st) paren_start = (vals, end_pos)"
    by (cases "parse_values_tuple (buffer st) paren_start") auto
  show ?thesis
  proof (cases "quick_skip cfg (buffer st) paren_start")
    case True
    with Some p assms have "after_tuple (st\<lparr>buffer := drop end_pos (buffer st),
                                 skipped_count := skipped_count st + 1\<rparr>) = (b, st')"
      by (simp add: tuple_step_def)
    from after_tuple_yielded_eq [OF this] show ?thesis by simp
  next
    case nq: False
    show ?thesis
    proof (cases "vals \<noteq> [] \<and> in_split_format st \<and> length vals < length (columns cfg)")
      case True
      with Some p nq assms have "st' = st\<lparr>accumulating_tuple := True\<rparr>"
        by (auto simp: tuple_step_def)
      then show ?thesis by simp
    next
      case ni: False
      show ?thesis
      proof (cases "vals \<noteq> [] \<and> length vals = length (columns cfg)")
        case full: True
        show ?thesis
        proof (cases "filtering cfg \<and> excluded cfg (subverse_of cfg vals)")
          case True
          with Some p nq ni full assms
          have "after_tuple (st\<lparr>skipped_count := skipped_count st + 1,
                                  buffer := drop end_pos (buffer st)\<rparr>) = (b, st')"
            by (auto simp: tuple_step_def split: if_splits)
          from after_tuple_yielded_eq [OF this] show ?thesis by simp
        next
          case False
          with Some p nq ni full assms
          have "after_tuple (st\<lparr>row_count := row_count st + 1,
                                  yielded := yielded st @ [zip (columns cfg) vals],
                                  buffer := drop end_pos (buffer st),
                                  accumulating_tuple := False,
                                  in_split_format := False\<rparr>) = (b, st')"
            by (auto simp: tuple_step_def split: if_splits)
          from after_tuple_yielded_eq [OF this]
          have "yielded st' = yielded st @ [zip (columns cfg) vals]" by simp
          with full False show ?thesis by blast
        qed
      next
        case nf: False
        show ?thesis
        proof (cases "vals \<noteq> []")
          case True
          with Some p nq ni nf assms
          have "after_tuple (st\<lparr>error_count := error_count st + 1,
                               buffer := drop end_pos (buffer st)\<rparr>) = (b, st')"
            by (auto simp: tuple_step_def split: if_splits)
          from after_tuple_yielded_eq [OF this] show ?thesis by simp
        next
          case False
          with Some p nq ni nf assms have "after_tuple st = (b, st')"
            by (auto simp: tuple_step_def split: if_splits)
          from after_tuple_yielded_eq [OF this] show ?thesis by simp
        qed
      qed
    qed
  qed
qed

lemma yielded_row_passes:
  assumes wf: "well_formed cfg"
    and len: "length values = length (columns cfg)"
    and keep: "\<not> (filtering cfg \<and> excluded cfg (subverse_of cfg values))"
  shows "row_passes cfg (zip (columns cfg) values)"
proof -
  from wf obtain idx where idx: "subverse_idx cfg = Some idx"
    "index_of (columns cfg) ''subverse'' = Some idx"
    by (cases "subverse_idx cfg") (auto simp: well_formed_def filtering_def)
  then have lt: "idx < length values" using index_of_less len by metis
  with idx have sv: "subverse_of cfg values = Some (values ! idx)"
    by (simp add: subverse_of_def)
  have "map_of (zip (columns cfg) values) ''subverse'' = Some (values ! idx)"
    using idx(2) lt by (rule map_of_zip_index)
  moreover have "\<not> excluded cfg (Some (values ! idx))"
    using keep wf sv by (simp add: well_formed_def)
  ultimately show ?thesis by (simp add: row_passes_def)
qed

lemma tuple_step_passes:
  assumes "well_formed cfg" "tuple_step cfg st = (b, st')" "list_all (row_passes cfg) (yielded st)"
  shows "list_all (row_passes cfg) (yielded st')"
  using tuple_step_yielded [OF assms(2)] assms(1,3) yielded_row_passes [OF assms(1)]
  by auto

lemma tuples_loop_passes:
  "well_formed cfg \<Longrightarrow> list_all (row_passes cfg) (yielded st) \<Longrightarrow>
   list_all (row_passes cfg) (yielded (fst (tuples_loop fuel cfg st)))"
proof (induction fuel arbitrary: st)
  case 0
  then show ?case by simp
next
  case (Suc fuel)
  obtain b st' where t: "tuple_step cfg st = (b, st')" by (cases "tuple_step cfg st") auto
  from tuple_step_passes [OF Suc.prems(1) t Suc.prems(2)]
  have ok: "list_all (row_passes cfg) (yielded st')" .
  show ?case
  proof (cases b)
    case True
    with t ok show ?thesis by simp
  next
    case False
    with t Suc.IH [OF Suc.prems(1) ok] show ?thesis by simp
  qed
qed

lemma parse_buffer_passes:
  "well_formed cfg \<Longrightarrow> list_all (row_passes cfg) (yielded st) \<Longrightarrow>
   list_all (row_passes cfg) (yielded (fst (parse_buffer fuel cfg st)))"
  by (simp add: parse_buffer_def tuples_loop_passes)

lemma process_line_shape:
  "process_line fuel cfg line st = (st, True)
   \<or> (\<exists>s. yielded s = yielded st \<and> process_line fuel cfg line st = parse_buffer fuel cfg s)"
proof -
  let ?skip = "strip line = [] \<or> startswith (strip line) ''--'' \<or> startswith (strip line) ''/*''"
  let ?insert = "find_str (lower line) (lower (insert_pattern cfg)) \<noteq> None"
  consider (skip) "?skip \<or> is_ddl (strip line)"
    | (insert) "\<not> ?skip" "\<not> is_ddl (strip line)" "?insert"
    | (tuple) "\<not> ?skip" "\<not> is_ddl (strip line)" "\<not> ?insert" "startswith (strip line) ''(''"
    | (more) "\<not> ?skip" "\<not> is_ddl (strip line)" "\<not> ?insert"
        "\<not> startswith (strip line) ''(''"
    by blast
  then show ?thesis
  proof cases
    case skip
    then have "process_line fuel cfg line st = (st, True)"
      by (auto simp: process_line_def Let_def)
    then show ?thesis ..
  next
    case insert
    show ?thesis
    proof (cases "find_str (upper line) ''VALUES''")
      case None
      with insert have "process_line fuel cfg line st = (st, True)"
        by (simp add: process_line_def Let_def)
      then show ?thesis ..
    next
      case (Some values_pos)
      let ?s = "st\<lparr>buffer := drop (values_pos + 6) line, in_split_format := False\<rparr>"
      from insert Some have "process_line fuel cfg line st = parse_buffer fuel cfg ?s"
        by (simp add: process_line_def Let_def)
      moreover have "yielded ?s = yielded st" by simp
      ultimately show ?thesis by blast
    qed
  next
    case tuple
    let ?s = "st\<lparr>accumulating_tuple := False, buffer := line, in_split_format := True\<rparr>"
    from tuple have "process_line fuel cfg line st = parse_buffer fuel cfg ?s"
      by (simp add: process_line_def Let_def)
    moreover have "yielded ?s = yielded st" by simp
    ultimately show ?thesis by blast
  next
    case more
    show ?thesis
    proof (cases "accumulating_tuple st \<or> in_split_format st")
      case True
      let ?s = "st\<lparr>buffer := buffer st @ line\<rparr>"
      from more True have "process_line fuel cfg line st = parse_buffer fuel cfg ?s"
        by (simp add: process_line_def Let_def)
      moreover have "yielded ?s = yielded st" by simp
      ultimately show ?thesis by blast
    next
      case False
      with more have "process_line fuel cfg line st = (st, True)"
        by (simp add: process_line_def Let_def)
      then show ?thesis ..
    qed
  qed
qed

lemma process_line_passes:
  assumes "well_formed cfg" "list_all (row_passes cfg) (yielded st)"
  shows "list_all (row_passes cfg) (yielded (fst (process_line fuel cfg line st)))"
  using process_line_shape [of fuel cfg line st]
proof
  assume "process_line fuel cfg line st = (st, True)"
  with assms(2) show ?thesis by simp
next
  assume "\<exists>s. yielded s = yielded st \<and> process_line fuel cfg line st = parse_buffer fuel cfg s"
  then obtain s where s: "yielded s = yielded st"
    "process_line fuel cfg line st = parse_buffer fuel cfg s" by blast
  with assms parse_buffer_passes [of cfg s fuel] show ?thesis by simp
qed

lemma lines_loop_passes:
  "well_formed cfg \<Longrightarrow> list_all (row_passes cfg) (yielded st) \<Longrightarrow>
   list_all (row_passes cfg) (yielded (fst (lines_loop fuel cfg ls st)))"
proof (induction ls arbitrary: st)
  case Nil
  then show ?case by simp
next
  case (Cons line rest)
  obtain st' b where p: "process_line fuel cfg line st = (st', b)"
    by (cases "process_line fuel cfg line st") auto
  from process_line_passes [OF Cons.prems, of fuel line] p
  have ok: "list_all (row_passes cfg) (yielded st')" by simp
  show ?case
  proof (cases b)
    case True
    with p Cons.IH [OF Cons.prems(1) ok] show ?thesis by simp
  next
    case False
    with p ok show ?thesis by simp
  qed
qed

lemma COLUMN_MAPS_known:
  "COLUMN_MAPS table_name = None \<longleftrightarrow> table_name \<noteq> ''submission'' \<and> table_name \<noteq> ''comment''"
  by (simp add: COLUMN_MAPS_def)

lemma COLUMN_MAPS_subverse:
  "COLUMN_MAPS table_name = Some cols \<Longrightarrow> index_of cols ''subverse'' \<noteq> None"
  by (auto simp: COLUMN_MAPS_def split: if_splits)


text \<open>
  Claim C9. For every table name other than the two known ones, the run of
  \<^verbatim>\<open>stream_rows\<close> ends with the unknown-table error, with no row yielded and whatever the
  file is (it is not opened); for the two known names the run never ends with that error.
\<close>

theorem unknown_table_fails_fast:
  "(table_name \<noteq> ''submission'' \<and> table_name \<noteq> ''comment'' \<longrightarrow>
      stream_rows fl fuel file table_name filter_subverses = ([], Raised UnknownTable))
   \<and> (table_name = ''submission'' \<or> table_name = ''comment'' \<longrightarrow>
      snd (stream_rows fl fuel file table_name filter_subverses) \<noteq> Raised UnknownTable)"
proof (intro conjI impI)
  assume "table_name \<noteq> ''submission'' \<and> table_name \<noteq> ''comment''"
  then have "COLUMN_MAPS table_name = None" by (simp add: COLUMN_MAPS_known)
  then show "stream_rows fl fuel file table_name filter_subverses = ([], Raised UnknownTable)"
    by (simp add: stream_rows_def)
next
  assume "table_name = ''submission'' \<or> table_name = ''comment''"
  then obtain cols where "COLUMN_MAPS table_name = Some cols"
    using COLUMN_MAPS_known [of table_name] by auto
  then show "snd (stream_rows fl fuel file table_name filter_subverses) \<noteq> Raised UnknownTable"
    by (auto simp: stream_rows_def Let_def split: prod.splits bool.splits)
qed

theorem unknown_table_fails_fast_witness:
  "stream_rows plain_floats 5 todo_community_dump ''user'' None = ([], Raised UnknownTable)
   \<and> snd (stream_rows plain_floats 5 todo_community_dump ''comment'' None) \<noteq> Raised UnknownTable"
proof -
  have "''user'' \<noteq> ''submission'' \<and> ''user'' \<noteq> ''comment''" by simp
  then have "stream_rows plain_floats 5 todo_community_dump ''user'' None = ([], Raised UnknownTable)"
    using unknown_table_fails_fast [of "''user''"] by blast
  moreover have "''comment'' = ''submission'' \<or> ''comment'' = ''comment''" by simp
  then have "snd (stream_rows plain_floats 5 todo_community_dump ''comment'' None)
               \<noteq> Raised UnknownTable"
    using unknown_table_fails_fast [of "''comment''"] by blast
  ultimately show ?thesis by simp
qed


text \<open>
  Claim C7, as amended. When a non-empty allow-list is given, every row that
  \<^verbatim>\<open>stream_rows\<close> yields, on every file and also on a run that does not end, has a
  community value from the full tuple parse that is either falsy (null, the empty string,
  zero) or whose lowered string form is in the lowered allow-list. The fast path can only
  skip rows, so it never adds a row.
\<close>

theorem kept_rows_pass_allow_list:
  assumes "fs \<noteq> []"
  shows "\<forall>r\<in>set (fst (stream_rows fl fuel file table_name (Some fs))).
           \<exists>v. map_of r ''subverse'' = Some v
             \<and> (py_truthy fl v \<longrightarrow> lower (py_str fl v) \<in> set (map lower fs))"
proof (cases "COLUMN_MAPS table_name")
  case None
  then show ?thesis by (simp add: stream_rows_def)
next
  case (Some cols)
  let ?cfg = "\<lparr>floats = fl, columns = cols,
               insert_pattern = ''INSERT INTO `'' @ table_name @ ''` VALUES'',
               subverse_idx = index_of cols ''subverse'',
               filter_lower = Some (map lower fs)\<rparr>"
  have wf: "well_formed ?cfg"
    using assms COLUMN_MAPS_subverse [OF Some] by (simp add: well_formed_def filtering_def)
  have init: "list_all (row_passes ?cfg) (yielded initial_stream_state)"
    by (simp add: initial_stream_state_def)
  have all: "list_all (row_passes ?cfg)
               (yielded (fst (lines_loop fuel ?cfg (file_lines file) initial_stream_state)))"
    using wf init by (rule lines_loop_passes)
  have rows: "set (fst (stream_rows fl fuel file table_name (Some fs)))
                \<subseteq> set (yielded (fst (lines_loop fuel ?cfg (file_lines file) initial_stream_state)))"
    using Some assms
    by (auto simp: stream_rows_def Let_def split: prod.splits bool.splits)
  show ?thesis
  proof
    fix r
    assume "r \<in> set (fst (stream_rows fl fuel file table_name (Some fs)))"
    with rows all have "row_passes ?cfg r" by (auto simp: list_all_iff)
    then show "\<exists>v. map_of r ''subverse'' = Some v
             \<and> (py_truthy fl v \<longrightarrow> lower (py_str fl v) \<in> set (map lower fs))"
      by (auto simp: row_passes_def excluded_def split: option.splits)
  qed
qed

text \<open>The witness has the community written with a capital E acute and the allow-list
  entry with a small one and capital letters after it: the case mapping is that of
  \<^verbatim>\<open>str.lower\<close>, beyond ASCII. The second row of the dump, of another community, is not
  yielded.\<close>

theorem kept_rows_pass_allow_list_witness:
  "fst (stream_rows plain_floats 5 ecole_community_dump ''comment''
          (Some [CHR 0xE9 # ''COLE''])) = [ecole_row]
   \<and> map_of ecole_row ''subverse'' = Some (SqlText (CHR 0xC9 # ''cole''))
   \<and> lower (py_str plain_floats (SqlText (CHR 0xC9 # ''cole'')))
         \<in> set (map lower [CHR 0xE9 # ''COLE''])
   \<and> lower (CHR 0xC9 # ''cole'') = CHR 0xE9 # ''cole''"
proof -
  have ne: "[CHR 0xE9 # ''COLE''] \<noteq> []" by simp
  have rows: "fst (stream_rows plain_floats 5 ecole_community_dump ''comment''
                     (Some [CHR 0xE9 # ''COLE''])) = [ecole_row]"
    by code_simp
  have community: "map_of ecole_row ''subverse'' = Some (SqlText (CHR 0xC9 # ''cole''))"
    by (simp add: ecole_row_def ecole_def)
  have truthy: "py_truthy plain_floats (SqlText (CHR 0xC9 # ''cole''))" by simp
  have folded: "lower (CHR 0xC9 # ''cole'') = CHR 0xE9 # ''cole''" by code_simp
  from kept_rows_pass_allow_list
         [OF ne, of plain_floats 5 ecole_community_dump "''comment''"] rows
  obtain v where v: "map_of ecole_row ''subverse'' = Some v"
    "py_truthy plain_floats v \<longrightarrow>
       lower (py_str plain_floats v) \<in> set (map lower [CHR 0xE9 # ''COLE''])"
    by auto
  from v(1) community have "v = SqlText (CHR 0xC9 # ''cole'')" by simp
  with v(2) truthy
  have "lower (py_str plain_floats (SqlText (CHR 0xC9 # ''cole'')))
          \<in> set (map lower [CHR 0xE9 # ''COLE''])"
    by blast
  with rows community folded show ?thesis by blast
qed

text \<open>
  Claim C7 as stated fails: with the allow-list \<^verbatim>\<open>['voatdev']\<close>, a row whose community
  is \<^verbatim>\<open>NULL\<close> is yielded, because the filter only tests truthy values.
\<close>

theorem kept_rows_counterexample:
  "fst (stream_rows plain_floats 5 null_community_dump ''comment'' (Some [''voatdev''])) =
   [[(''commentid'', SqlInt 1), (''content'', SqlText ''a''), (''creationDate'', SqlText ''b''),
     (''downCount'', SqlInt 0), (''formattedContent'', SqlText ''c''), (''isAnonymized'', SqlInt 0),
     (''isCollapsed'', SqlInt 0), (''isDeleted'', SqlInt 0), (''isDistinguished'', SqlInt 0),
     (''isOwner'', SqlInt 0), (''isSaved'', SqlInt 0), (''isSubmitter'', SqlInt 0),
     (''lastEditDate'', SqlNull), (''parentid'', SqlInt 0), (''submissionid'', SqlInt 7),
     (''subverse'', SqlNull), (''sum'', SqlInt 1), (''upCount'', SqlInt 1),
     (''userName'', SqlText ''u''), (''vote'', SqlInt 0), (''fetchCount'', SqlInt 4),
     (''lastFetched'', SqlText ''d'')]]
   \<and> lower (py_str plain_floats SqlNull) \<notin> set (map lower [''voatdev''])"
  by code_simp

end
